theory Spec2Isabelle
  imports Main "HOL-Library.Sublist"
begin

section \<open>JavaScript strings\<close>

text \<open>
  The crawler (\<^verbatim>\<open>src/webrcv.js\<close>, with its older variants \<^verbatim>\<open>src/download-site.js\<close> and
  \<^verbatim>\<open>src/unnamed/part_000\<close>) works on URLs, markup and stylesheets as JavaScript strings.
  They are modelled as \<^typ>\<open>string\<close>, one \<^typ>\<open>char\<close> per code unit. The target
  origin \<^verbatim>\<open>ROOT\<close> is a global constant of the script, read from the command line; every
  function that reads it takes it as its first argument.
\<close>

definition startsWith :: "string \<Rightarrow> string \<Rightarrow> bool" where
  "startsWith s p = (take (length p) s = p)"

definition endsWith :: "string \<Rightarrow> string \<Rightarrow> bool" where
  "endsWith s p = (length p \<le> length s \<and> drop (length s - length p) s = p)"

text \<open>\<^verbatim>\<open>s.includes(p)\<close>: \<open>p\<close> occurs somewhere in \<open>s\<close>.\<close>

fun includes_str :: "string \<Rightarrow> string \<Rightarrow> bool" where
  "includes_str [] p = (p = [])"
| "includes_str (c # cs) p = (startsWith (c # cs) p \<or> includes_str cs p)"

text \<open>
  The regular expression atom \<^verbatim>\<open>.\<close> matches every character but a line terminator. Of the
  four line terminators of JavaScript, line feed and carriage return are single characters
  of the model.
\<close>

definition line_terminator :: "char \<Rightarrow> bool" where
  "line_terminator c = (c = CHR 0x0A \<or> c = CHR 0x0D)"

text \<open>
  \<^verbatim>\<open>s.replace(pat, rep)\<close> with a string pattern: the first occurrence of \<open>pat\<close> is
  replaced, the rest of \<open>s\<close> is kept. (The replacement strings of the source hold no
  \<^verbatim>\<open>$\<close>, so none of the replacement patterns of JavaScript arises.)
\<close>

fun replace_str :: "string \<Rightarrow> string \<Rightarrow> string \<Rightarrow> string" where
  "replace_str [] pat rep = (if pat = [] then rep else [])"
| "replace_str (c # cs) pat rep =
     (if startsWith (c # cs) pat then rep @ drop (length pat) (c # cs)
      else c # replace_str cs pat rep)"

text \<open>
  \<^verbatim>\<open>u.replace(/\?.*$/, "")\<close>: the match starts at the first question mark from which no
  line terminator stands before the end of the string (\<^verbatim>\<open>.*\<close> has to reach \<^verbatim>\<open>$\<close>, the
  end of the input), and runs to the end.
\<close>

fun strip_query :: "string \<Rightarrow> string" where
  "strip_query [] = []"
| "strip_query (c # cs) =
     (if c = CHR ''?'' \<and> list_all (\<lambda>d. \<not> line_terminator d) cs then []
      else c # strip_query cs)"

text \<open>\<^verbatim>\<open>u.replace(/^\//, "")\<close>: one leading slash is removed.\<close>

fun strip_leading_slash :: "string \<Rightarrow> string" where
  "strip_leading_slash [] = []"
| "strip_leading_slash (c # cs) = (if c = CHR ''/'' then cs else c # cs)"

section \<open>The URL normalizer\<close>

text \<open>
  \<^verbatim>\<open>
  function cleanURL(url) {
    let u = url.replace(ROOT, "").replace(/\?.*$/, "");
    if (u === "" || u === "/") return "index.html";
    if (u.endsWith("/")) u += "index.html";
    return u.replace(/^\//, "");
  }
  \<close>
  The function reads its argument and the constant \<^verbatim>\<open>ROOT\<close> only and calls nothing but
  string methods, which is why it embeds as a function of the origin and the URL.
\<close>

definition cleanURL :: "string \<Rightarrow> string \<Rightarrow> string" where
  "cleanURL ROOT url =
     (let u = strip_query (replace_str url ROOT []) in
      if u = [] \<or> u = ''/'' then ''index.html''
      else strip_leading_slash (if endsWith u ''/'' then u @ ''index.html'' else u))"

section \<open>Regular expressions built at run time\<close>

text \<open>
  \<open>rewriteHTML\<close> and \<open>rewriteCSS\<close> build regular expressions from \<^verbatim>\<open>ROOT\<close> with
  \<^verbatim>\<open>new RegExp(source, "g")\<close>. The model reads the fragment of the pattern syntax that an
  origin can produce: a character that stands for itself, the wildcard \<^verbatim>\<open>.\<close>, and a
  backslash before a character of the class that \<open>escapeRegExp\<close> escapes. Every other
  source (an operator such as \<^verbatim>\<open>?\<close> or \<^verbatim>\<open>(\<close>, another escape) is outside the model and
  read as \<open>None\<close>.
\<close>

datatype atom = Lit char | Dot

text \<open>The character class \<^verbatim>\<open>[-/\\^$*+?.()|[\]{}]\<close>.\<close>

definition syntax_char :: "char \<Rightarrow> bool" where
  "syntax_char c = (c \<in> set ''-/^$*+?.()|[]{}'' \<or> c = CHR 0x5C)"

text \<open>The operators of the pattern syntax that the model does not read.\<close>

definition operator_char :: "char \<Rightarrow> bool" where
  "operator_char c = (c \<in> set ''^$*+?()|[]{}'')"

text \<open>\<^verbatim>\<open>ROOT.replace(/[-/\\^$*+?.()|[\]{}]/g, "\\$&")\<close>: a backslash before every character of the class.\<close>

definition escapeRegExp :: "string \<Rightarrow> string" where
  "escapeRegExp s = concat (map (\<lambda>c. if syntax_char c then [CHR 0x5C, c] else [c]) s)"

fun compile :: "string \<Rightarrow> atom list option" where
  "compile [] = Some []"
| "compile [c] =
     (if c = CHR 0x5C \<or> operator_char c then None
      else if c = CHR ''.'' then Some [Dot] else Some [Lit c])"
| "compile (c # d # ds) =
     (if c = CHR 0x5C then
        (if syntax_char d then map_option ((#) (Lit d)) (compile ds) else None)
      else if operator_char c then None
      else if c = CHR ''.'' then map_option ((#) Dot) (compile (d # ds))
      else map_option ((#) (Lit c)) (compile (d # ds)))"

fun atom_matches :: "atom \<Rightarrow> char \<Rightarrow> bool" where
  "atom_matches (Lit d) c = (c = d)"
| "atom_matches Dot c = (\<not> line_terminator c)"

text \<open>The pattern matches at the start of the string. Every atom takes one character.\<close>

fun matches_at :: "atom list \<Rightarrow> string \<Rightarrow> bool" where
  "matches_at [] s = True"
| "matches_at (a # as) [] = False"
| "matches_at (a # as) (c # cs) = (atom_matches a c \<and> matches_at as cs)"

text \<open>
  \<^verbatim>\<open>s.replace(re, rep)\<close> with the flag \<^verbatim>\<open>g\<close>: the matches are taken from left to right and
  do not overlap; an empty pattern matches before every character and at the end.
\<close>

function replace_all :: "string \<Rightarrow> atom list \<Rightarrow> string \<Rightarrow> string" where
  "replace_all [] re rep = (if re = [] then rep else [])"
| "replace_all (c # cs) re rep =
     (if re = [] then rep @ c # replace_all cs re rep
      else if matches_at re (c # cs) then rep @ replace_all (drop (length re) (c # cs)) re rep
      else c # replace_all cs re rep)"
  by pat_completeness auto
termination
  by (relation "measure (\<lambda>(s, re, rep). length s)") auto

section \<open>Rewriting references\<close>

text \<open>
  \<^verbatim>\<open>
  function rewriteHTML(html) {
    return html
      .replace(new RegExp(ROOT.replace(/[-/\\^$*+?.()|[\]{}]/g, "\\$&"), "g"), "")
      .replace(/href="\//g, 'href="')
      .replace(/src="\//g, 'src="')
      .replace(/url\("\//g, 'url("');
  }
  \<close>
  The three regular expression literals match the texts \<^verbatim>\<open>href="/\<close>, \<^verbatim>\<open>src="/\<close> and
  \<^verbatim>\<open>url("/\<close>.
\<close>

definition rewriteHTML :: "string \<Rightarrow> string \<Rightarrow> string option" where
  "rewriteHTML ROOT html =
     (case compile (escapeRegExp ROOT) of
        None \<Rightarrow> None
      | Some origin \<Rightarrow>
          Some (replace_all
                 (replace_all
                   (replace_all
                     (replace_all html origin [])
                     (map Lit ''href=\"/'') ''href=\"'')
                   (map Lit ''src=\"/'') ''src=\"'')
                 (map Lit ''url(\"/'') ''url(\"''))"

text \<open>
  \<^verbatim>\<open>
  function rewriteCSS(css) {
    return css
      .replace(new RegExp(`url\\(\"${ROOT}`, "g"), 'url("')
      .replace(new RegExp(`url\\(${ROOT}`, "g"), "url(")
      .replace(new RegExp(ROOT.replace(/[-/\\^$*+?.()|[\]{}]/g, "\\$&"), "g"), "");
  }
  \<close>
  The first two patterns hold \<^verbatim>\<open>ROOT\<close> as it is, not escaped: their sources are
  \<^verbatim>\<open>url\("\<close> and \<^verbatim>\<open>url\(\<close> followed by the text of \<^verbatim>\<open>ROOT\<close>.
\<close>

definition rewriteCSS :: "string \<Rightarrow> string \<Rightarrow> string option" where
  "rewriteCSS ROOT css =
     (case compile (''url'' @ [CHR 0x5C] @ ''(\"'' @ ROOT) of
        None \<Rightarrow> None
      | Some quoted \<Rightarrow>
         (case compile (''url'' @ [CHR 0x5C] @ ''('' @ ROOT) of
            None \<Rightarrow> None
          | Some bare \<Rightarrow>
             (case compile (escapeRegExp ROOT) of
                None \<Rightarrow> None
              | Some origin \<Rightarrow>
                  Some (replace_all
                         (replace_all
                           (replace_all css quoted ''url(\"'')
                           bare ''url('')
                         origin []))))"

text \<open>
  The older variants (\<^verbatim>\<open>src/unnamed/part_000\<close>, \<^verbatim>\<open>src/download-site.js\<close>) have the origin
  in the patterns, with its trailing separator:
  \<^verbatim>\<open>
  function rewriteCSS(css) {
    return css
      .replace(/url\("https:\/\/thegentlemensedit\.com\//g, 'url("')
      .replace(/url\(https:\/\/thegentlemensedit\.com\//g, "url(")
      .replace(/https:\/\/thegentlemensedit\.com\//g, "");
  }
  \<close>
\<close>

definition rewriteCSS_v8 :: "string \<Rightarrow> string" where
  "rewriteCSS_v8 css =
     replace_all
       (replace_all
         (replace_all css (map Lit ''url(\"https://thegentlemensedit.com/'') ''url(\"'')
         (map Lit ''url(https://thegentlemensedit.com/'') ''url('')
       (map Lit ''https://thegentlemensedit.com/'') []"

text \<open>
  An origin without regular expression operators and without a backslash: every pattern
  that \<open>rewriteCSS\<close> builds from it is in the fragment the model reads.
\<close>

definition plain_origin :: "string \<Rightarrow> bool" where
  "plain_origin ROOT = list_all (\<lambda>c. \<not> operator_char c \<and> c \<noteq> CHR 0x5C) ROOT"

section \<open>The shared sets\<close>

text \<open>
  \<^verbatim>\<open>queued\<close>, \<^verbatim>\<open>visited\<close> and \<^verbatim>\<open>saving\<close> are JavaScript \<^verbatim>\<open>Set\<close>s. A \<^verbatim>\<open>Set\<close> keeps its
  members in the order of their insertion and the worker takes \<^verbatim>\<open>[...queued][0]\<close>, so a set
  is modelled as the list of its members in that order. \<^verbatim>\<open>add\<close> leaves a set that
  holds the member as it is.
\<close>

definition set_add :: "string list \<Rightarrow> string \<Rightarrow> string list" where
  "set_add xs x = (if x \<in> set xs then xs else xs @ [x])"

section \<open>The sitemap seeder\<close>

text \<open>
  \<^verbatim>\<open>[...xml.matchAll(/<loc>(.*?)<\/loc>/g)].map((m) => m[1])\<close>. \<open>lazy_until close s\<close> is the
  lazy group followed by the closing text: the shortest prefix of \<open>s\<close> without a line
  terminator after which \<open>close\<close> stands, with what follows \<open>close\<close>.
\<close>

fun lazy_until :: "string \<Rightarrow> string \<Rightarrow> (string \<times> string) option" where
  "lazy_until close [] = (if close = [] then Some ([], []) else None)"
| "lazy_until close (c # cs) =
     (if startsWith (c # cs) close then Some ([], drop (length close) (c # cs))
      else if line_terminator c then None
      else map_option (\<lambda>(p, r). (c # p, r)) (lazy_until close cs))"

lemma lazy_until_length: "lazy_until close s = Some (p, r) \<Longrightarrow> length r \<le> length s"
proof (induction s arbitrary: p)
  case Nil
  then show ?case by (simp split: if_splits)
next
  case (Cons c cs)
  show ?case
  proof (cases "startsWith (c # cs) close")
    case True
    with Cons.prems show ?thesis by auto
  next
    case False
    with Cons.prems obtain p' where "lazy_until close cs = Some (p', r)"
      by (auto split: if_splits)
    from Cons.IH [OF this] show ?thesis by simp
  qed
qed

function matchAllLoc :: "string \<Rightarrow> string list" where
  "matchAllLoc [] = []"
| "matchAllLoc (c # cs) =
     (if startsWith (c # cs) ''<loc>'' then
        (case lazy_until ''</loc>'' (drop 5 (c # cs)) of
           None \<Rightarrow> matchAllLoc cs
         | Some (u, r) \<Rightarrow> u # matchAllLoc r)
      else matchAllLoc cs)"
  by pat_completeness auto
termination
proof (relation "measure length")
  fix c :: char and cs :: string and x2 :: "string \<times> string" and u r :: string
  assume "lazy_until ''</loc>'' (drop 5 (c # cs)) = Some x2" and "(u, r) = x2"
  then have "lazy_until ''</loc>'' (drop 5 (c # cs)) = Some (u, r)" by simp
  then have "length r \<le> length (drop 5 (c # cs))" by (rule lazy_until_length)
  then show "(r, c # cs) \<in> measure length" by simp
qed auto

text \<open>
  The answer to \<^verbatim>\<open>ctx.request.get(`${ROOT}/sitemap.xml`)\<close>: the request throws, or a response
  arrives with its \<^verbatim>\<open>ok()\<close> flag and its text (\<open>None\<close> when \<^verbatim>\<open>res.text()\<close> throws).
\<close>

datatype sitemap_fetch = RequestFailed | Responded bool "string option"

text \<open>
  \<^verbatim>\<open>
  async function loadSitemap(browser) {
    try {
      const res = await browser.newContext().then((ctx) =>
        ctx.request.get(`${ROOT}/sitemap.xml`)
      );
      if (!res.ok()) return;
      const xml = await res.text();
      const urls = [...xml.matchAll(/<loc>(.*?)<\/loc>/g)].map((m) => m[1]);
      urls.forEach((u) => queued.add(u));
      console.log("Sitemap URLs added:", urls.length);
    } catch (err) {
      console.log("No sitemap found.");
    }
  }
  \<close>
  The function returns in every case; what it changes is \<^verbatim>\<open>queued\<close>.
\<close>

fun loadSitemap :: "sitemap_fetch \<Rightarrow> string list \<Rightarrow> string list" where
  "loadSitemap RequestFailed queued = queued"
| "loadSitemap (Responded ok None) queued = queued"
| "loadSitemap (Responded ok (Some xml)) queued =
     (if \<not> ok then queued else foldl set_add queued (matchAllLoc xml))"

text \<open>
  The text of an entry that the pattern can take: it stands on one line and ends where
  the closing tag first stands.
\<close>

definition one_line_entry :: "string \<Rightarrow> bool" where
  "one_line_entry u =
     (list_all (\<lambda>d. \<not> line_terminator d) u \<and> \<not> includes_str u ''</loc>'')"

section \<open>Files under the output directory\<close>

text \<open>
  Every file is written at \<^verbatim>\<open>path.join(OUT, cleaned)\<close>, with \<^verbatim>\<open>OUT\<close> the output directory,
  a global constant of the script as \<^verbatim>\<open>ROOT\<close> is. \<^verbatim>\<open>path.join\<close> is the library function of
  Node.js; the model follows its POSIX version: the arguments that are not empty are
  joined with a separator, and the result is normalized. Normalizing resolves the
  segments from left to right: an empty segment and \<^verbatim>\<open>.\<close> are dropped, \<^verbatim>\<open>..\<close> removes the
  segment before it (and is kept in a relative path that has none to remove); a leading
  and a trailing separator are kept.
\<close>

fun segments :: "string \<Rightarrow> string \<Rightarrow> string list" where
  "segments cur [] = [rev cur]"
| "segments cur (c # cs) =
     (if c = CHR ''/'' then rev cur # segments [] cs else segments (c # cur) cs)"

fun resolve :: "bool \<Rightarrow> string list \<Rightarrow> string list \<Rightarrow> string list" where
  "resolve climb res [] = res"
| "resolve climb res (seg # segs) =
     (if seg = [] \<or> seg = ''.'' then resolve climb res segs
      else if seg = ''..'' then
        (if res \<noteq> [] \<and> last res \<noteq> ''..'' then resolve climb (butlast res) segs
         else if climb then resolve climb (res @ [''..'']) segs
         else resolve climb res segs)
      else resolve climb (res @ [seg]) segs)"

fun join_segments :: "string list \<Rightarrow> string" where
  "join_segments [] = []"
| "join_segments [seg] = seg"
| "join_segments (seg # segs) = seg @ ''/'' @ join_segments segs"

definition path_normalize :: "string \<Rightarrow> string" where
  "path_normalize path =
     (if path = [] then ''.''
      else
        (let absolute = (hd path = CHR ''/'');
             trailing = (last path = CHR ''/'');
             res = join_segments (resolve (\<not> absolute) [] (segments [] path))
         in if res = [] then (if absolute then ''/'' else if trailing then ''./'' else ''.'')
            else (if absolute then ''/'' else []) @ res @ (if trailing then ''/'' else [])))"

definition path_join :: "string \<Rightarrow> string \<Rightarrow> string" where
  "path_join dir file =
     (if dir = [] \<and> file = [] then ''.''
      else if dir = [] then path_normalize file
      else if file = [] then path_normalize dir
      else path_normalize (dir @ ''/'' @ file))"

section \<open>The crawl\<close>

text \<open>
  JavaScript runs one task at a time: between two \<^verbatim>\<open>await\<close>s a task is not interrupted.
  The four workers and the response handlers of the sniffer interleave at their
  \<^verbatim>\<open>await\<close>s only, so the run is modelled by the blocks of code between them. A worker
  is suspended at one of these places:
\<close>

datatype pc =
    Starting          \<comment> \<open>\<^verbatim>\<open>await browser.newContext(); await setupSniffer(context)\<close>\<close>
  | Rendering string  \<comment> \<open>\<^verbatim>\<open>newPage\<close>, \<^verbatim>\<open>goto\<close>, \<^verbatim>\<open>fullScroll\<close>, \<^verbatim>\<open>content\<close> of the URL\<close>
  | Extracting string \<comment> \<open>\<^verbatim>\<open>await extractLinks(page)\<close>\<close>
  | Closing string    \<comment> \<open>\<^verbatim>\<open>await page.close()\<close>\<close>
  | Leaving           \<comment> \<open>\<^verbatim>\<open>await context.close()\<close>, after the loop\<close>
  | Finished          \<comment> \<open>the worker has returned\<close>
  | Rejected          \<comment> \<open>the worker has thrown, outside its \<^verbatim>\<open>try\<close>\<close>

text \<open>
  The state of the script: the three sets, the suspended workers, the response handlers
  suspended at \<^verbatim>\<open>await res.body()\<close> (each with the path it computed), and what the script has
  done so far: the URLs it logged as \<^verbatim>\<open>Crawling:\<close> before each render, the files the workers
  wrote (\<open>pages\<close>: the file and its content), and the files the sniffer wrote (\<open>assets\<close>:
  the path the handler computed, the file that \<^verbatim>\<open>path.join\<close> makes of it, and the content).
\<close>

record state =
  queued :: "string list"
  visited :: "string list"
  saving :: "string list"
  workers :: "pc list"
  bodies :: "string list"
  crawls :: "string list"
  pages :: "(string \<times> string) list"
  assets :: "(string \<times> string \<times> string) list"

text \<open>
  The head of the loop runs without an \<^verbatim>\<open>await\<close> until a URL is taken or the set is empty:
  \<^verbatim>\<open>
  while (queued.size > 0) {
    const url = [...queued][0];
    queued.delete(url);
    if (visited.has(url)) continue;
    visited.add(url);
    console.log("Crawling:", url);
    try {
      const page = await context.newPage();
  \<close>
  \<open>next_url\<close> gives the URL taken, if any, and what is left of \<^verbatim>\<open>queued\<close> (a set holds a
  member once, so \<^verbatim>\<open>delete\<close> of the first member leaves the members after it).
\<close>

fun next_url :: "string list \<Rightarrow> string list \<Rightarrow> string option \<times> string list" where
  "next_url seen [] = (None, [])"
| "next_url seen (url # rest) =
     (if url \<in> set seen then next_url seen rest else (Some url, rest))"

definition loop_head :: "nat \<Rightarrow> state \<Rightarrow> state" where
  "loop_head i s =
     (case next_url (visited s) (queued s) of
        (None, rest) \<Rightarrow> s\<lparr>queued := rest, workers := (workers s)[i := Leaving]\<rparr>
      | (Some url, rest) \<Rightarrow>
          s\<lparr>queued := rest, visited := set_add (visited s) url,
            workers := (workers s)[i := Rendering url], crawls := crawls s @ [url]\<rparr>)"

text \<open>
  \<^verbatim>\<open>
  } catch (err) {
    console.log("Retry:", url);
    queued.add(url);
  }
  \<close>
  after which the loop goes on from its head.
\<close>

definition requeue :: "string \<Rightarrow> state \<Rightarrow> state" where
  "requeue url s = s\<lparr>queued := set_add (queued s) url\<rparr>"

text \<open>\<^verbatim>\<open>for (const link of links) { if (!visited.has(link)) queued.add(link); }\<close>\<close>

fun enqueue_links :: "string list \<Rightarrow> string list \<Rightarrow> string list \<Rightarrow> string list" where
  "enqueue_links seen pending [] = pending"
| "enqueue_links seen pending (link # links) =
     enqueue_links seen (if link \<in> set seen then pending else set_add pending link) links"

text \<open>
  What an \<^verbatim>\<open>await\<close> of a worker comes back with: it resolves (\<open>Ready\<close>), it throws, the
  render resolves with the page's markup (and \<^verbatim>\<open>writeFile\<close> then succeeds or throws), or
  \<^verbatim>\<open>extractLinks\<close> resolves with the links the page's filter kept.
\<close>

datatype outcome = Ready | Threw | Content string bool | Links "string list"

text \<open>
  The block a worker runs when its \<^verbatim>\<open>await\<close> comes back, up to its next \<^verbatim>\<open>await\<close>:
  \<^verbatim>\<open>
      await page.goto(url, { waitUntil: "networkidle", timeout: 60000 });
      await fullScroll(page);
      let html = await page.content();
      html = rewriteHTML(html);
      const savePath = path.join(OUT, cleanURL(url));
      writeFile(savePath, html);
      const links = await extractLinks(page);
      for (const link of links) {
        if (!visited.has(link)) queued.add(link);
      }
      await page.close();
    } catch (err) { ... }
  }
  await context.close();
  \<close>
  An outcome that the place of the worker cannot receive leaves the state as it is.
\<close>

fun resume :: "string \<Rightarrow> string \<Rightarrow> nat \<Rightarrow> pc \<Rightarrow> outcome \<Rightarrow> state \<Rightarrow> state option" where
  "resume ROOT OUT i Starting Ready s = Some (loop_head i s)"
| "resume ROOT OUT i Starting Threw s = Some (s\<lparr>workers := (workers s)[i := Rejected]\<rparr>)"
| "resume ROOT OUT i (Rendering url) Threw s = Some (loop_head i (requeue url s))"
| "resume ROOT OUT i (Rendering url) (Content html stored) s =
     (case rewriteHTML ROOT html of
        None \<Rightarrow> None
      | Some h \<Rightarrow>
          if stored then
            Some (s\<lparr>workers := (workers s)[i := Extracting url],
                    pages := pages s @ [(path_join OUT (cleanURL ROOT url), h)]\<rparr>)
          else Some (loop_head i (requeue url s)))"
| "resume ROOT OUT i (Extracting url) Threw s = Some (loop_head i (requeue url s))"
| "resume ROOT OUT i (Extracting url) (Links links) s =
     Some (s\<lparr>queued := enqueue_links (visited s) (queued s) links,
             workers := (workers s)[i := Closing url]\<rparr>)"
| "resume ROOT OUT i (Closing url) Threw s = Some (loop_head i (requeue url s))"
| "resume ROOT OUT i (Closing url) Ready s = Some (loop_head i s)"
| "resume ROOT OUT i Leaving Ready s = Some (s\<lparr>workers := (workers s)[i := Finished]\<rparr>)"
| "resume ROOT OUT i Leaving Threw s = Some (s\<lparr>workers := (workers s)[i := Rejected]\<rparr>)"
| "resume ROOT OUT i p out s = Some s"

subsection \<open>The sniffer\<close>

text \<open>
  \<^verbatim>\<open>
  context.on("response", async (res) => {
    try {
      const url = res.url();
      if (!url.startsWith(ROOT)) return;
      const cleaned = cleanURL(url);
      if (saving.has(cleaned)) return;
      saving.add(cleaned);
      const file = path.join(OUT, cleaned);
      let body = await res.body();
      if (cleaned.endsWith(".css")) {
        let css = body.toString("utf8");
        css = rewriteCSS(css);
        writeFile(file, css);
        return;
      }
      writeFile(file, body);
    } catch (err) {
      console.log("Error saving asset:", err);
    }
  });
  \<close>
  \<open>on_response\<close> is the handler up to \<^verbatim>\<open>await res.body()\<close>, \<open>on_body\<close> the rest of it. A body
  is a string of the model, as its text is.
\<close>

definition on_response :: "string \<Rightarrow> string \<Rightarrow> state \<Rightarrow> state" where
  "on_response ROOT url s =
     (if startsWith url ROOT then
        (let cleaned = cleanURL ROOT url in
         if cleaned \<in> set (saving s) then s
         else s\<lparr>saving := set_add (saving s) cleaned, bodies := bodies s @ [cleaned]\<rparr>)
      else s)"

text \<open>
  \<^verbatim>\<open>res.body()\<close> throws, or resolves with the bytes (and \<^verbatim>\<open>writeFile\<close> then succeeds or
  throws).
\<close>

datatype body = BodyFailed | Bytes string bool

text \<open>\<^verbatim>\<open>writeFile(path.join(OUT, cleaned), data)\<close>, which succeeds or throws.\<close>

definition store_asset :: "string \<Rightarrow> string \<Rightarrow> string \<Rightarrow> bool \<Rightarrow> state \<Rightarrow> state" where
  "store_asset OUT cleaned data stored s =
     (if stored then s\<lparr>assets := assets s @ [(cleaned, path_join OUT cleaned, data)]\<rparr> else s)"

definition on_body :: "string \<Rightarrow> string \<Rightarrow> string \<Rightarrow> body \<Rightarrow> state \<Rightarrow> state option" where
  "on_body ROOT OUT cleaned b s =
     (if cleaned \<in> set (bodies s) then
        (let s' = s\<lparr>bodies := remove1 cleaned (bodies s)\<rparr> in
         case b of
           BodyFailed \<Rightarrow> Some s'
         | Bytes data stored \<Rightarrow>
             if endsWith cleaned ''.css'' then
               (case rewriteCSS ROOT data of
                  None \<Rightarrow> None
                | Some css \<Rightarrow> Some (store_asset OUT cleaned css stored s'))
             else Some (store_asset OUT cleaned data stored s'))
      else Some s)"

text \<open>
  The older sniffer of \<^verbatim>\<open>src/unnamed/part_000\<close> has no \<^verbatim>\<open>saving\<close> set:
  \<^verbatim>\<open>
  context.on("response", async (res) => {
    try {
      const url = res.url();
      if (!url.startsWith(ROOT)) return;
      const cleanPath = cleanURL(url);
      const savePath = path.join(OUT, cleanPath);
      const body = await res.body();
      if (cleanPath.endsWith(".css")) {
        let text = body.toString("utf8");
        text = rewriteCSS(text);
        writeFileSafely(savePath, text);
        return;
      }
      writeFileSafely(savePath, body);
    } catch (_) {}
  });
  \<close>
  with \<^verbatim>\<open>const ROOT = "https://thegentlemensedit.com"\<close> and
  \<^verbatim>\<open>const OUT = "/Users/BGoodwin/Documents/Websites/thegentlemensedit"\<close>.
\<close>

definition ROOT_v8 :: string where
  "ROOT_v8 = ''https://thegentlemensedit.com''"

definition OUT_v8 :: string where
  "OUT_v8 = ''/Users/BGoodwin/Documents/Websites/thegentlemensedit''"

definition sniffAndSave_response :: "string \<Rightarrow> state \<Rightarrow> state" where
  "sniffAndSave_response url s =
     (if startsWith url ROOT_v8 then s\<lparr>bodies := bodies s @ [cleanURL ROOT_v8 url]\<rparr> else s)"

definition sniffAndSave_body :: "string \<Rightarrow> body \<Rightarrow> state \<Rightarrow> state" where
  "sniffAndSave_body cleanPath b s =
     (if cleanPath \<in> set (bodies s) then
        (let s' = s\<lparr>bodies := remove1 cleanPath (bodies s)\<rparr> in
         case b of
           BodyFailed \<Rightarrow> s'
         | Bytes data stored \<Rightarrow>
             if endsWith cleanPath ''.css'' then store_asset OUT_v8 cleanPath (rewriteCSS_v8 data) stored s'
             else store_asset OUT_v8 cleanPath data stored s')
      else s)"

subsection \<open>Runs\<close>

text \<open>
  A run is the sequence of its events: worker \<open>i\<close> resumes with an outcome, a response
  for a URL is observed, the body of the handler that holds a path comes back. Every
  interleaving of the workers and the handlers, and every behaviour of the browser, is
  one such sequence.
\<close>

datatype event = Worker nat outcome | Response string | Body string body

fun step :: "string \<Rightarrow> string \<Rightarrow> event \<Rightarrow> state \<Rightarrow> state option" where
  "step ROOT OUT (Worker i out) s =
     (if i < length (workers s) then resume ROOT OUT i (workers s ! i) out s else Some s)"
| "step ROOT OUT (Response url) s = Some (on_response ROOT url s)"
| "step ROOT OUT (Body cleaned b) s = on_body ROOT OUT cleaned b s"

fun run :: "string \<Rightarrow> string \<Rightarrow> event list \<Rightarrow> state \<Rightarrow> state option" where
  "run ROOT OUT [] s = Some s"
| "run ROOT OUT (e # es) s = (case step ROOT OUT e s of None \<Rightarrow> None | Some s' \<Rightarrow> run ROOT OUT es s')"

text \<open>
  The script starts with \<^verbatim>\<open>queued = new Set([ROOT])\<close>, loads the sitemap and starts
  \<^verbatim>\<open>THREADS = 4\<close> workers.
\<close>

definition start :: "string \<Rightarrow> sitemap_fetch \<Rightarrow> state" where
  "start ROOT fetch =
     \<lparr>queued = loadSitemap fetch [ROOT], visited = [], saving = [],
      workers = replicate 4 Starting, bodies = [], crawls = [], pages = [], assets = []\<rparr>"

text \<open>A query component: nothing, or a question mark and what follows it on the line.\<close>

fun is_query :: "string \<Rightarrow> bool" where
  "is_query [] = True"
| "is_query (c # cs) = (c = CHR ''?'' \<and> list_all (\<lambda>d. \<not> line_terminator d) cs)"

text \<open>An event that brings back the body the handler of path \<open>p\<close> waits for.\<close>

fun is_body_of :: "string \<Rightarrow> event \<Rightarrow> bool" where
  "is_body_of p (Body cleaned b) = (cleaned = p)"
| "is_body_of p e = False"

text \<open>The handler stores nothing: \<^verbatim>\<open>res.body()\<close> or \<^verbatim>\<open>writeFile\<close> throws.\<close>

fun failed :: "body \<Rightarrow> bool" where
  "failed BodyFailed = True"
| "failed (Bytes data stored) = (\<not> stored)"

text \<open>
  Four invariants of the runs. The lists that stand for the three sets hold no member
  twice. Every URL logged as crawled is logged once and is in
  \<^verbatim>\<open>visited\<close>. Every path the sniffer wrote was written once and is in \<^verbatim>\<open>saving\<close>, as is the
  path of every handler that waits for its body; no two handlers wait with the same path,
  and none waits with a path that is written. Every file the sniffer wrote is what \<^verbatim>\<open>path.join\<close>
  makes of \<^verbatim>\<open>OUT\<close> and the path of its handler.
\<close>

definition sets_inv :: "state \<Rightarrow> bool" where
  "sets_inv s = (distinct (queued s) \<and> distinct (visited s) \<and> distinct (saving s))"

definition crawl_inv :: "state \<Rightarrow> bool" where
  "crawl_inv s = (distinct (crawls s) \<and> set (crawls s) \<subseteq> set (visited s))"

definition files_inv :: "string \<Rightarrow> state \<Rightarrow> bool" where
  "files_inv OUT s = list_all (\<lambda>a. fst (snd a) = path_join OUT (fst a)) (assets s)"

definition sniff_inv :: "state \<Rightarrow> bool" where
  "sniff_inv s =
     (distinct (map fst (assets s)) \<and> fst ` set (assets s) \<subseteq> set (saving s)
      \<and> set (bodies s) \<subseteq> set (saving s) \<and> distinct (bodies s)
      \<and> set (bodies s) \<inter> fst ` set (assets s) = {})"

section \<open>Properties of the URL normalizer\<close>

lemma startsWith_prefix: "startsWith s p = prefix p s"
proof
  assume "startsWith s p"
  then have "s = p @ drop (length p) s"
    by (metis append_take_drop_id startsWith_def)
  then show "prefix p s" by (metis prefixI)
next
  assume "prefix p s"
  then show "startsWith s p" by (auto simp: startsWith_def prefix_def)
qed

lemma startsWith_append: "startsWith (p @ s) p"
  by (simp add: startsWith_def)

lemma replace_str_startsWith:
  "startsWith url pat \<Longrightarrow> replace_str url pat rep = rep @ drop (length pat) url"
  by (cases url) (auto simp: startsWith_def)

lemma replace_str_absent: "\<not> includes_str s pat \<Longrightarrow> replace_str s pat rep = s"
  by (induction s) auto

lemma strip_query_prefix: "prefix (strip_query s) s"
  by (induction s) auto

lemma strip_query_no_query: "CHR ''?'' \<notin> set s \<Longrightarrow> strip_query s = s"
  by (induction s) auto

lemma strip_query_append:
  "CHR ''?'' \<notin> set p \<Longrightarrow> strip_query (p @ q) = p @ strip_query q"
  by (induction p) auto

lemma strip_query_startsWith:
  "startsWith (strip_query s) p \<Longrightarrow> startsWith s p"
  using strip_query_prefix [of s] by (auto simp: startsWith_prefix intro: prefix_order.trans)

text \<open>
  C4 (as amended). For every URL that starts with the origin and whose remainder after
  the origin does not begin with two separators, the path computed by \<open>cleanURL\<close> has no
  leading separator. (\<open>cleanURL\<close> is a function of the origin and the URL alone.)
\<close>

theorem cleanURL_no_leading_separator:
  assumes "startsWith url ROOT"
    and "\<not> startsWith (drop (length ROOT) url) ''//''"
  shows "\<not> startsWith (cleanURL ROOT url) ''/''"
proof -
  define u where "u = strip_query (drop (length ROOT) url)"
  have clean: "cleanURL ROOT url =
      (if u = [] \<or> u = ''/'' then ''index.html''
       else strip_leading_slash (if endsWith u ''/'' then u @ ''index.html'' else u))"
    using assms(1) by (simp add: cleanURL_def u_def replace_str_startsWith)
  have no2: "\<not> startsWith u ''//''"
    using assms(2) strip_query_startsWith unfolding u_def by blast
  show ?thesis
  proof (cases u)
    case Nil
    then show ?thesis by (simp add: clean startsWith_def)
  next
    case (Cons c cs)
    show ?thesis
    proof (cases cs)
      case Nil
      with Cons show ?thesis by (simp add: clean startsWith_def endsWith_def)
    next
      case (Cons d ds)
      with \<open>u = c # cs\<close> no2 show ?thesis
        by (auto simp: clean startsWith_def)
    qed
  qed
qed

theorem cleanURL_no_leading_separator_witness:
  "startsWith ''https://site.example/a/b.css?v=1'' ''https://site.example''
   \<and> \<not> startsWith (drop (length ''https://site.example'') ''https://site.example/a/b.css?v=1'') ''//''
   \<and> cleanURL ''https://site.example'' ''https://site.example/a/b.css?v=1'' = ''a/b.css''
   \<and> \<not> startsWith (cleanURL ''https://site.example'' ''https://site.example/a/b.css?v=1'') ''/''"
proof -
  have h1: "startsWith ''https://site.example/a/b.css?v=1'' ''https://site.example''"
    by (simp add: startsWith_def)
  have h2: "\<not> startsWith (drop (length ''https://site.example'') ''https://site.example/a/b.css?v=1'') ''//''"
    by (simp add: startsWith_def)
  have v: "cleanURL ''https://site.example'' ''https://site.example/a/b.css?v=1'' = ''a/b.css''"
    by (simp add: cleanURL_def startsWith_def endsWith_def line_terminator_def)
  from cleanURL_no_leading_separator [OF h1 h2] h1 h2 v show ?thesis by blast
qed

text \<open>
  C4 (as stated) fails where the path begins with two separators: only one of them is
  removed.
\<close>

theorem cleanURL_leading_separator_counterexample:
  "startsWith ''https://site.example//a'' ''https://site.example''
   \<and> cleanURL ''https://site.example'' ''https://site.example//a'' = ''/a''
   \<and> startsWith (cleanURL ''https://site.example'' ''https://site.example//a'') ''/''"
  by (simp add: cleanURL_def startsWith_def endsWith_def)

lemma endsWith_suffix: "endsWith s p = suffix p s"
proof
  assume "endsWith s p"
  then have "s = take (length s - length p) s @ p"
    by (metis append_take_drop_id endsWith_def)
  then show "suffix p s" by (metis suffixI)
next
  assume "suffix p s"
  then show "endsWith s p" by (auto simp: endsWith_def suffix_def)
qed

lemma endsWith_slash: "endsWith s ''/'' = (s \<noteq> [] \<and> last s = CHR ''/'')"
  by (cases s rule: rev_cases) (auto simp: endsWith_def)

lemma includes_str_strip:
  "\<not> includes_str s p \<Longrightarrow> \<not> includes_str (strip_leading_slash s) p"
  by (cases s) auto

lemma cleanURL_in_scope:
  "startsWith url ROOT \<Longrightarrow> cleanURL ROOT url =
     (let u = strip_query (drop (length ROOT) url) in
      if u = [] \<or> u = ''/'' then ''index.html''
      else strip_leading_slash (if endsWith u ''/'' then u @ ''index.html'' else u))"
  by (simp add: cleanURL_def replace_str_startsWith)

lemma cleanURL_relative:
  assumes "\<not> includes_str p ROOT" and "CHR ''?'' \<notin> set p" and "p \<noteq> []"
    and "\<not> endsWith p ''/''" and "\<not> startsWith p ''/''"
  shows "cleanURL ROOT p = p"
proof -
  have "strip_query (replace_str p ROOT []) = p"
    using assms(1,2) by (simp add: replace_str_absent strip_query_no_query)
  moreover have "p \<noteq> ''/''" using assms(4) by (auto simp: endsWith_def)
  moreover have "strip_leading_slash p = p"
    using assms(3,5) by (cases p) (auto simp: startsWith_def)
  ultimately show ?thesis using assms(3,4) by (simp add: cleanURL_def)
qed

text \<open>
  C5 (as amended). For every URL that is the origin followed by a non-empty path, with
  no question mark, not ending in a separator, whose path neither begins with two
  separators nor holds the origin again, \<open>cleanURL\<close> returns the path without its leading
  separator, and \<open>cleanURL\<close> applied to that result returns it unchanged.
\<close>

theorem cleanURL_idempotent:
  assumes "startsWith url ROOT"
    and "CHR ''?'' \<notin> set url"
    and "\<not> endsWith url ''/''"
    and "length ROOT < length url"
    and "\<not> startsWith (drop (length ROOT) url) ''//''"
    and "\<not> includes_str (drop (length ROOT) url) ROOT"
  shows "cleanURL ROOT url = strip_leading_slash (drop (length ROOT) url)
       \<and> cleanURL ROOT (cleanURL ROOT url) = cleanURL ROOT url"
proof -
  define r where "r = drop (length ROOT) url"
  define p where "p = strip_leading_slash r"
  have r_ne: "r \<noteq> []" using assms(4) by (simp add: r_def)
  have r_q: "CHR ''?'' \<notin> set r" using assms(2) unfolding r_def by (meson in_set_dropD)
  have r_end: "\<not> endsWith r ''/''"
  proof -
    have "url \<noteq> []" using assms(4) by auto
    moreover have "last r = last url" using assms(4) by (simp add: r_def)
    ultimately show ?thesis using assms(3) by (simp add: endsWith_slash)
  qed
  have r_one: "r \<noteq> ''/''" using r_end by (auto simp: endsWith_def)
  have first: "cleanURL ROOT url = p"
    using assms(1) r_ne r_one r_end r_q
    by (simp add: cleanURL_in_scope r_def [symmetric] p_def strip_query_no_query)
  obtain c cs where r: "r = c # cs" using r_ne by (cases r) auto
  have cs_ne: "c = CHR ''/'' \<Longrightarrow> cs \<noteq> []" using r r_one by auto
  have p_ne: "p \<noteq> []" using r cs_ne by (auto simp: p_def)
  have p_last: "last p = last r" using r cs_ne by (auto simp: p_def)
  have p_end: "\<not> endsWith p ''/''" using r_end r_ne p_ne p_last by (simp add: endsWith_slash)
  have p_q: "CHR ''?'' \<notin> set p" using r_q r by (auto simp: p_def split: if_splits)
  have p_start: "\<not> startsWith p ''/''"
    using assms(5) r cs_ne unfolding r_def [symmetric]
    by (cases cs) (auto simp: p_def startsWith_def)
  have p_root: "\<not> includes_str p ROOT"
    using assms(6) unfolding p_def r_def by (rule includes_str_strip)
  have "cleanURL ROOT p = p"
    using p_root p_q p_ne p_end p_start by (rule cleanURL_relative)
  with first show ?thesis by (simp add: p_def r_def)
qed

theorem cleanURL_idempotent_witness:
  "cleanURL ''https://site.example'' ''https://site.example/css/site.css'' = ''css/site.css''
   \<and> cleanURL ''https://site.example''
        (cleanURL ''https://site.example'' ''https://site.example/css/site.css'')
      = cleanURL ''https://site.example'' ''https://site.example/css/site.css''"
proof -
  have h1: "startsWith ''https://site.example/css/site.css'' ''https://site.example''"
    by (simp add: startsWith_def)
  have h2: "CHR ''?'' \<notin> set ''https://site.example/css/site.css''" by simp
  have h3: "\<not> endsWith ''https://site.example/css/site.css'' ''/''"
    by (simp add: endsWith_def)
  have h4: "length ''https://site.example'' < length ''https://site.example/css/site.css''"
    by simp
  have h5: "\<not> startsWith (drop (length ''https://site.example'')
      ''https://site.example/css/site.css'') ''//''"
    by (simp add: startsWith_def)
  have h6: "\<not> includes_str (drop (length ''https://site.example'')
      ''https://site.example/css/site.css'') ''https://site.example''"
    by (simp add: startsWith_def)
  have v: "strip_leading_slash (drop (length ''https://site.example'')
      ''https://site.example/css/site.css'') = ''css/site.css''"
    by simp
  from cleanURL_idempotent [OF h1 h2 h3 h4 h5 h6] show ?thesis unfolding v .
qed

text \<open>
  C5 (as stated) fails in three ways. A path that begins with two separators loses one
  of them at each application; the URL that is the origin itself has no query and does
  not end in a separator, and is mapped to the index document, not to the empty path; a
  path that holds the origin again loses that occurrence at the second application.
\<close>

theorem cleanURL_idempotent_counterexample:
  "startsWith ''https://site.example//a'' ''https://site.example''
   \<and> CHR ''?'' \<notin> set ''https://site.example//a''
   \<and> \<not> endsWith ''https://site.example//a'' ''/''
   \<and> cleanURL ''https://site.example'' ''https://site.example//a'' = ''/a''
   \<and> cleanURL ''https://site.example'' ''/a'' = ''a''
   \<and> \<not> endsWith ''https://site.example'' ''/''
   \<and> strip_leading_slash (drop (length ''https://site.example'') ''https://site.example'') = []
   \<and> cleanURL ''https://site.example'' ''https://site.example'' = ''index.html''
   \<and> cleanURL ''https://site.example'' ''https://site.example/go/https://site.example/x''
      = ''go/https://site.example/x''
   \<and> cleanURL ''https://site.example'' ''go/https://site.example/x'' = ''go//x''"
  by (simp add: cleanURL_def startsWith_def endsWith_def)

text \<open>
  C6 (as amended). For every URL made of the origin, a path that is empty or ends in a
  separator (this covers the path \<^verbatim>\<open>/\<close>), and then nothing or a query component (a question
  mark and the rest of the line), so with no fragment after the path, \<open>cleanURL\<close> returns
  the path without its leading separator followed by \<^verbatim>\<open>index.html\<close>, once: the result does
  not end in the name twice.
\<close>

theorem cleanURL_index_once:
  assumes "CHR ''?'' \<notin> set p" and "is_query q" and "p = [] \<or> endsWith p ''/''"
  shows "cleanURL ROOT (ROOT @ p @ q) = strip_leading_slash p @ ''index.html''
       \<and> \<not> endsWith (cleanURL ROOT (ROOT @ p @ q)) (''index.html'' @ ''index.html'')"
proof -
  have q: "strip_query q = []" using assms(2) by (cases q) auto
  have u: "strip_query (drop (length ROOT) (ROOT @ p @ q)) = p"
    using assms(1) q by (simp add: strip_query_append)
  have eq: "cleanURL ROOT (ROOT @ p @ q) = strip_leading_slash p @ ''index.html''"
  proof (cases "p = [] \<or> p = ''/''")
    case True
    then show ?thesis using u by (auto simp: cleanURL_in_scope startsWith_append)
  next
    case False
    then have "strip_leading_slash (p @ ''index.html'') = strip_leading_slash p @ ''index.html''"
      by (cases p) auto
    moreover from False assms(3) have "endsWith p ''/''" by simp
    ultimately show ?thesis using False
      by (simp add: cleanURL_in_scope startsWith_append u del: drop_append)
  qed
  have "\<not> suffix (''index.html'' @ ''index.html'') (strip_leading_slash p @ ''index.html'')"
  proof
    assume "suffix (''index.html'' @ ''index.html'') (strip_leading_slash p @ ''index.html'')"
    then have s: "suffix ''index.html'' (strip_leading_slash p)"
      by (simp only: same_suffix_suffix)
    then have ne: "strip_leading_slash p \<noteq> []" by auto
    from s have l: "last (strip_leading_slash p) = CHR ''l''"
      by (auto simp: suffix_def)
    from ne have "p \<noteq> []" by auto
    with assms(3) have "last p = CHR ''/''" by (simp add: endsWith_slash)
    moreover have "last (strip_leading_slash p) = last p"
      using ne by (cases p) auto
    ultimately show False using l by simp
  qed
  with eq show ?thesis by (simp add: endsWith_suffix)
qed

theorem cleanURL_index_once_witness:
  "cleanURL ''https://site.example'' ''https://site.example/about/?ref=1'' = ''about/index.html''
   \<and> cleanURL ''https://site.example'' ''https://site.example/'' = ''index.html''
   \<and> cleanURL ''https://site.example'' ''https://site.example'' = ''index.html''"
proof -
  have a: "CHR ''?'' \<notin> set ''/about/''" "is_query ''?ref=1''" "''/about/'' = [] \<or> endsWith ''/about/'' ''/''"
    by (simp_all add: endsWith_def line_terminator_def)
  have b: "CHR ''?'' \<notin> set ''/''" "is_query []" "''/'' = [] \<or> endsWith ''/'' ''/''"
    by (simp_all add: endsWith_def)
  have c: "CHR ''?'' \<notin> set ([] :: string)" "([] :: string) = [] \<or> endsWith [] ''/''"
    by simp_all
  from cleanURL_index_once [OF a, of "''https://site.example''"]
    cleanURL_index_once [OF b, of "''https://site.example''"]
    cleanURL_index_once [OF c(1) b(2) c(2), of "''https://site.example''"]
  show ?thesis by simp
qed

text \<open>
  C6 (as stated) fails for a URL with a fragment: \<^verbatim>\<open>https://site.example/about/#top\<close> has
  the path \<^verbatim>\<open>/about/\<close>, and \<open>cleanURL\<close> returns \<^verbatim>\<open>about/#top\<close>, without the index document. Such
  a URL reaches \<open>cleanURL\<close> from the sitemap, whose entries are not filtered for \<^verbatim>\<open>#\<close>: the
  worker stores the page under that name. It fails as well when a line break stands in
  the query, which the pattern \<^verbatim>\<open>/\?.*$/\<close> then does not match.
\<close>

theorem cleanURL_index_fragment_counterexample:
  "''https://site.example/about/#top'' = ''https://site.example'' @ ''/about/'' @ ''#top''
   \<and> endsWith ''/about/'' ''/''
   \<and> cleanURL ''https://site.example'' ''https://site.example/about/#top'' = ''about/#top''
   \<and> \<not> endsWith (cleanURL ''https://site.example'' ''https://site.example/about/#top'')
         ''index.html''
   \<and> map_option pages
        (run ''https://site.example'' ''/home/user/downloads/site.example''
          [Worker 0 Ready, Worker 0 (Content ''Home'' True), Worker 0 (Links []),
           Worker 0 Ready, Worker 0 (Content ''About'' True)]
          (start ''https://site.example''
            (Responded True (Some ''<loc>https://site.example/about/#top</loc>''))))
     = Some [(''/home/user/downloads/site.example/index.html'', ''Home''),
             (''/home/user/downloads/site.example/about/#top'', ''About'')]
   \<and> cleanURL ''https://site.example'' (''https://site.example/a/?x'' @ [CHR 0x0A] @ ''y'')
     = ''a/?x'' @ [CHR 0x0A] @ ''y''"
  by code_simp

section \<open>Properties of the rewriting\<close>

lemma escapeRegExp_Cons:
  "escapeRegExp (c # s) = (if syntax_char c then [CHR 0x5C, c] else [c]) @ escapeRegExp s"
  by (simp add: escapeRegExp_def)

lemma compile_escapeRegExp: "compile (escapeRegExp s) = Some (map Lit s)"
proof (induction s)
  case Nil
  then show ?case by (simp add: escapeRegExp_def)
next
  case (Cons c s)
  note tl = escapeRegExp_Cons
  show ?case
  proof (cases "syntax_char c")
    case True
    then show ?thesis using Cons.IH by (simp add: tl)
  next
    case False
    then have c: "c \<noteq> CHR 0x5C" "\<not> operator_char c" "c \<noteq> CHR ''.''"
      by (auto simp: syntax_char_def operator_char_def)
    show ?thesis
    proof (cases "escapeRegExp s")
      case Nil
      with Cons.IH False c show ?thesis by (simp add: tl)
    next
      case (Cons d ds)
      with Cons.IH False c show ?thesis by (simp add: tl)
    qed
  qed
qed

lemma compile_plain_Cons:
  "\<not> operator_char c \<Longrightarrow> c \<noteq> CHR 0x5C \<Longrightarrow>
   compile (c # s) = map_option ((#) (if c = CHR ''.'' then Dot else Lit c)) (compile s)"
  by (cases s) auto

lemma compile_escaped_Cons:
  "syntax_char d \<Longrightarrow> compile (CHR 0x5C # d # s) = map_option ((#) (Lit d)) (compile s)"
  by simp

lemma compile_plain:
  "plain_origin s \<Longrightarrow> compile s = Some (map (\<lambda>c. if c = CHR ''.'' then Dot else Lit c) s)"
  unfolding plain_origin_def
proof (induction s)
  case Nil
  then show ?case by simp
next
  case (Cons c s)
  then show ?case by (simp add: compile_plain_Cons del: compile.simps)
qed

lemma rewriteHTML_defined: "\<exists>h. rewriteHTML ROOT html = Some h"
  by (simp add: rewriteHTML_def compile_escapeRegExp)

lemma rewriteCSS_defined:
  assumes "plain_origin ROOT"
  shows "\<exists>css'. rewriteCSS ROOT css = Some css'"
proof -
  have q: "compile (''url'' @ [CHR 0x5C] @ ''(\"'' @ ROOT)
      = Some (map Lit ''url(\"'' @ map (\<lambda>c. if c = CHR ''.'' then Dot else Lit c) ROOT)"
    using compile_plain [OF assms]
    by (simp add: compile_plain_Cons compile_escaped_Cons operator_char_def syntax_char_def
        del: compile.simps)
  have b: "compile (''url'' @ [CHR 0x5C] @ ''('' @ ROOT)
      = Some (map Lit ''url('' @ map (\<lambda>c. if c = CHR ''.'' then Dot else Lit c) ROOT)"
    using compile_plain [OF assms]
    by (simp add: compile_plain_Cons compile_escaped_Cons operator_char_def syntax_char_def
        del: compile.simps)
  show ?thesis unfolding rewriteCSS_def q b compile_escapeRegExp by simp
qed

text \<open>
  C7. \<open>rewriteHTML\<close> with the origin \<^verbatim>\<open>https://site.example\<close> turns
  \<^verbatim>\<open><a href="https://site.example/about/">\<close> into \<^verbatim>\<open><a href="about/">\<close>: the result holds
  \<^verbatim>\<open>href="about/"\<close>, it holds the origin nowhere, and the reference has no leading
  separator.
\<close>

theorem rewriteHTML_example:
  "rewriteHTML ''https://site.example'' ''<a href=\"https://site.example/about/\">''
     = Some ''<a href=\"about/\">''
   \<and> includes_str ''<a href=\"about/\">'' ''href=\"about/\"''
   \<and> \<not> includes_str ''<a href=\"about/\">'' ''https://site.example''
   \<and> \<not> includes_str ''<a href=\"about/\">'' ''href=\"/''"
  by (simp add: rewriteHTML_def compile_escapeRegExp startsWith_def)

text \<open>
  C8 (the code at the claim's input). \<open>rewriteCSS\<close> with the origin
  \<^verbatim>\<open>https://site.example\<close> turns \<^verbatim>\<open>background:url("https://site.example/img/a.png")\<close> into
  \<^verbatim>\<open>background:url("/img/a.png")\<close>: the origin is removed and the quotes are kept, but the
  leading separator stays. The older \<open>rewriteCSS\<close>, whose patterns end in the separator,
  returns \<^verbatim>\<open>background:url("img/a.png")\<close> for its own origin.
\<close>

theorem rewriteCSS_example:
  "rewriteCSS ''https://site.example'' ''background:url(\"https://site.example/img/a.png\")''
     = Some ''background:url(\"/img/a.png\")''
   \<and> rewriteCSS_v8 ''background:url(\"https://thegentlemensedit.com/img/a.png\")''
     = ''background:url(\"img/a.png\")''"
  by (simp add: rewriteCSS_def rewriteCSS_v8_def compile_escapeRegExp
      syntax_char_def operator_char_def line_terminator_def)

section \<open>Properties of the sitemap seeder\<close>

lemma set_foldl_set_add: "set (foldl set_add q xs) = set q \<union> set xs"
  by (induction xs arbitrary: q) (auto simp: set_add_def)

lemma distinct_foldl_set_add: "distinct q \<Longrightarrow> distinct (foldl set_add q xs)"
  by (induction xs arbitrary: q) (auto simp: set_add_def)

lemma length_foldl_set_add:
  "length (foldl set_add q xs) = length q + card (set xs - set q)"
proof (induction xs arbitrary: q)
  case Nil
  then show ?case by simp
next
  case (Cons x xs)
  show ?case
  proof (cases "x \<in> set q")
    case True
    then have "set (x # xs) - set q = set xs - set q" by auto
    with True Cons.IH [of q] show ?thesis by (simp add: set_add_def)
  next
    case False
    have "set (x # xs) - set q = insert x (set xs - set (q @ [x]))" using False by auto
    moreover have "x \<notin> set xs - set (q @ [x])" by simp
    ultimately have "card (set (x # xs) - set q) = Suc (card (set xs - set (q @ [x])))"
      by (simp only: card_insert_disjoint [OF _ \<open>x \<notin> set xs - set (q @ [x])\<close>] finite_Diff finite_set)
    with False Cons.IH [of "q @ [x]"] show ?thesis by (simp add: set_add_def)
  qed
qed

text \<open>
  How \<open>matchAllLoc\<close> reads a document. A tag starts with \<^verbatim>\<open><\<close> and holds no other one, so
  an occurrence of a tag cannot begin in the text before the tag and end inside it.
\<close>

lemma startsWith_no_overlap:
  assumes "x \<notin> set tag" and "startsWith (t @ (x # tag) @ r) (x # tag)" and "t \<noteq> []"
  shows "startsWith t (x # tag)"
proof -
  from assms(2) have "prefix (x # tag) (t @ ((x # tag) @ r))" by (simp add: startsWith_prefix)
  then consider "prefix (x # tag) t"
    | us where "x # tag = t @ us" and "prefix us ((x # tag) @ r)"
    unfolding prefix_append by blast
  then show ?thesis
  proof cases
    case 1
    then show ?thesis by (simp add: startsWith_prefix)
  next
    case 2
    show ?thesis
    proof (cases us)
      case Nil
      with 2(1) show ?thesis by (simp add: startsWith_def)
    next
      case (Cons u us')
      with 2(2) have "u = x" by simp
      from assms(3) obtain c t' where t: "t = c # t'" by (cases t) auto
      with 2(1) Cons \<open>u = x\<close> have "tag = t' @ x # us'" by simp
      with assms(1) show ?thesis by simp
    qed
  qed
qed

lemma matchAllLoc_before:
  "\<not> includes_str t ''<loc>'' \<Longrightarrow> matchAllLoc (t @ ''<loc>'' @ r) = matchAllLoc (''<loc>'' @ r)"
proof (induction t)
  case Nil
  then show ?case by simp
next
  case (Cons c t)
  from Cons.prems have no: "\<not> startsWith (c # t) ''<loc>''" and rest: "\<not> includes_str t ''<loc>''"
    by simp_all
  have "\<not> startsWith ((c # t) @ ''<loc>'' @ r) ''<loc>''"
  proof
    assume "startsWith ((c # t) @ ''<loc>'' @ r) ''<loc>''"
    then have "startsWith (c # t) ''<loc>''"
      by (rule startsWith_no_overlap [rotated]) simp_all
    with no show False ..
  qed
  then have "matchAllLoc ((c # t) @ ''<loc>'' @ r) = matchAllLoc (t @ ''<loc>'' @ r)"
    by simp
  with Cons.IH [OF rest] show ?case by simp
qed

lemma matchAllLoc_without: "\<not> includes_str t ''<loc>'' \<Longrightarrow> matchAllLoc t = []"
  by (induction t) simp_all

lemma lazy_until_entry:
  "one_line_entry u \<Longrightarrow> lazy_until ''</loc>'' (u @ ''</loc>'' @ r) = Some (u, r)"
  unfolding one_line_entry_def
proof (induction u)
  case Nil
  then show ?case by (simp add: startsWith_def)
next
  case (Cons c u)
  from Cons.prems have line: "\<not> line_terminator c"
    and no: "\<not> startsWith (c # u) ''</loc>''"
    and rest: "list_all (\<lambda>d. \<not> line_terminator d) u \<and> \<not> includes_str u ''</loc>''"
    by simp_all
  have "\<not> startsWith ((c # u) @ ''</loc>'' @ r) ''</loc>''"
  proof
    assume "startsWith ((c # u) @ ''</loc>'' @ r) ''</loc>''"
    then have "startsWith (c # u) ''</loc>''"
      by (rule startsWith_no_overlap [rotated]) simp_all
    with no show False ..
  qed
  with line Cons.IH [OF rest] show ?case by simp
qed

lemma matchAllLoc_entry:
  assumes "one_line_entry u"
  shows "matchAllLoc (''<loc>'' @ u @ ''</loc>'' @ r) = u # matchAllLoc r"
proof -
  have "startsWith (''<loc>'' @ u @ ''</loc>'' @ r) ''<loc>''" by (rule startsWith_append)
  moreover have "drop 5 (''<loc>'' @ u @ ''</loc>'' @ r) = u @ ''</loc>'' @ r" by simp
  ultimately show ?thesis
    using lazy_until_entry [OF assms, of r]
    by (simp del: lazy_until.simps drop_Cons_numeral)
qed

lemma matchAllLoc_three:
  assumes "list_all (\<lambda>t. \<not> includes_str t ''<loc>'') [t0, t1, t2, t3]"
    and "list_all one_line_entry [a, b, c]"
  shows "matchAllLoc (t0 @ ''<loc>'' @ a @ ''</loc>'' @ t1 @ ''<loc>'' @ b @ ''</loc>''
      @ t2 @ ''<loc>'' @ c @ ''</loc>'' @ t3) = [a, b, c]"
proof -
  from assms have t: "\<not> includes_str t0 ''<loc>''" "\<not> includes_str t1 ''<loc>''"
      "\<not> includes_str t2 ''<loc>''" "\<not> includes_str t3 ''<loc>''"
    and e: "one_line_entry a" "one_line_entry b" "one_line_entry c"
    by simp_all
  show ?thesis
    by (simp only: matchAllLoc_before [OF t(1)] matchAllLoc_before [OF t(2)]
        matchAllLoc_before [OF t(3)] matchAllLoc_entry [OF e(1)] matchAllLoc_entry [OF e(2)]
        matchAllLoc_entry [OF e(3)] matchAllLoc_without [OF t(4)])
qed

text \<open>
  C9 (as amended). Let the sitemap be fetched with success and let its text hold three
  \<^verbatim>\<open><loc>\<close> entries \<open>a\<close>, \<open>b\<close>, \<open>c\<close>, each written on one line (no line break between the
  tags), with no other \<^verbatim>\<open><loc>\<close> around them. Then \<open>loadSitemap\<close> finds exactly these three
  and adds them to \<^verbatim>\<open>queued\<close>: the set afterwards is the set before with \<open>a\<close>, \<open>b\<close>, \<open>c\<close> (the
  script starts its workers with the origin and the three), and it grows by the number
  of entries that it did not hold (so an entry equal to the seeded URL collapses, and
  three new, different entries make it grow by three). When the response is not \<^verbatim>\<open>ok\<close>,
  when reading its text throws, or when the request throws, \<^verbatim>\<open>queued\<close> is unchanged and
  \<open>loadSitemap\<close> returns.
\<close>

theorem loadSitemap_three:
  assumes "xml = t0 @ ''<loc>'' @ a @ ''</loc>'' @ t1 @ ''<loc>'' @ b @ ''</loc>''
      @ t2 @ ''<loc>'' @ c @ ''</loc>'' @ t3"
    and "list_all (\<lambda>t. \<not> includes_str t ''<loc>'') [t0, t1, t2, t3]"
    and "list_all one_line_entry [a, b, c]"
  shows "matchAllLoc xml = [a, b, c]
       \<and> set (loadSitemap (Responded True (Some xml)) pending) = set pending \<union> {a, b, c}
       \<and> set (queued (start ROOT (Responded True (Some xml)))) = {ROOT, a, b, c}
       \<and> length (loadSitemap (Responded True (Some xml)) pending)
           = length pending + card ({a, b, c} - set pending)
       \<and> (distinct [a, b, c] \<and> {a, b, c} \<inter> set pending = {}
            \<longrightarrow> length (loadSitemap (Responded True (Some xml)) pending) = length pending + 3)
       \<and> loadSitemap (Responded False body) pending = pending
       \<and> loadSitemap (Responded True None) pending = pending
       \<and> loadSitemap RequestFailed pending = pending"
proof -
  have found: "matchAllLoc xml = [a, b, c]"
    unfolding assms(1) using assms(2,3) by (rule matchAllLoc_three)
  have l: "loadSitemap (Responded True (Some xml)) pending = foldl set_add pending [a, b, c]"
    using found by simp
  have s: "set (loadSitemap (Responded True (Some xml)) pending) = set pending \<union> {a, b, c}"
    unfolding l set_foldl_set_add by auto
  have n: "length (loadSitemap (Responded True (Some xml)) pending)
           = length pending + card ({a, b, c} - set pending)"
    unfolding l length_foldl_set_add by simp
  have t: "length (loadSitemap (Responded True (Some xml)) pending) = length pending + 3"
    if "distinct [a, b, c]" and "{a, b, c} \<inter> set pending = {}"
  proof -
    from that(2) have "{a, b, c} - set pending = {a, b, c}" by auto
    moreover from that(1) have "card {a, b, c} = 3" by simp
    ultimately show ?thesis using n by simp
  qed
  have f: "loadSitemap (Responded False body) pending = pending"
    by (cases body) simp_all
  have q: "queued (start ROOT (Responded True (Some xml))) = foldl set_add [ROOT] [a, b, c]"
    using found by (simp add: start_def)
  have i: "set (queued (start ROOT (Responded True (Some xml)))) = {ROOT, a, b, c}"
    unfolding q set_foldl_set_add by auto
  from found s i n t f show ?thesis by simp
qed

theorem loadSitemap_three_witness:
  "matchAllLoc (''<urlset><url>'' @ ''<loc>'' @ ''https://site.example'' @ ''</loc>''
      @ ''</url><url>'' @ ''<loc>'' @ ''https://site.example/a'' @ ''</loc>''
      @ ''</url><url>'' @ ''<loc>'' @ ''https://site.example/b'' @ ''</loc>''
      @ ''</url></urlset>'')
     = [''https://site.example'', ''https://site.example/a'', ''https://site.example/b'']
   \<and> length (loadSitemap (Responded True (Some (''<urlset><url>'' @ ''<loc>''
      @ ''https://site.example'' @ ''</loc>''
      @ ''</url><url>'' @ ''<loc>'' @ ''https://site.example/a'' @ ''</loc>''
      @ ''</url><url>'' @ ''<loc>'' @ ''https://site.example/b'' @ ''</loc>''
      @ ''</url></urlset>''))) [''https://site.example'']) = 3
   \<and> matchAllLoc ([] @ ''<loc>'' @ ''https://site.example/a'' @ ''</loc>''
      @ [CHR 0x0A] @ ''<loc>'' @ ''https://site.example/b'' @ ''</loc>''
      @ [CHR 0x0A] @ ''<loc>'' @ ''https://site.example/c'' @ ''</loc>'' @ [])
     = [''https://site.example/a'', ''https://site.example/b'', ''https://site.example/c'']
   \<and> length (loadSitemap (Responded True (Some ([] @ ''<loc>'' @ ''https://site.example/a''
      @ ''</loc>'' @ [CHR 0x0A] @ ''<loc>'' @ ''https://site.example/b'' @ ''</loc>''
      @ [CHR 0x0A] @ ''<loc>'' @ ''https://site.example/c'' @ ''</loc>'' @ [])))
        [''https://site.example'']) = length [''https://site.example''] + 3
   \<and> loadSitemap (Responded False (Some ''<loc>https://site.example/a</loc>''))
        [''https://site.example'']
     = [''https://site.example'']"
proof -
  have t1: "list_all (\<lambda>t. \<not> includes_str t ''<loc>'')
      [''<urlset><url>'', ''</url><url>'', ''</url><url>'', ''</url></urlset>'']"
    by code_simp
  have e1: "list_all one_line_entry
      [''https://site.example'', ''https://site.example/a'', ''https://site.example/b'']"
    by code_simp
  have t2: "list_all (\<lambda>t. \<not> includes_str t ''<loc>'') [[], [CHR 0x0A], [CHR 0x0A], []]"
    by code_simp
  have e2: "list_all one_line_entry
      [''https://site.example/a'', ''https://site.example/b'', ''https://site.example/c'']"
    by code_simp
  have c1: "card ({''https://site.example'', ''https://site.example/a'', ''https://site.example/b''}
      - set [''https://site.example'']) = 2"
    by simp
  have d2: "distinct [''https://site.example/a'', ''https://site.example/b'', ''https://site.example/c'']
      \<and> {''https://site.example/a'', ''https://site.example/b'', ''https://site.example/c''}
          \<inter> set [''https://site.example''] = {}"
    by simp
  note w1 = loadSitemap_three [OF refl t1 e1, where pending = "[''https://site.example'']"]
  note w2 = loadSitemap_three [OF refl t2 e2, where pending = "[''https://site.example'']"
      and body = "Some ''<loc>https://site.example/a</loc>''"]
  from w1 have m1: "matchAllLoc (''<urlset><url>'' @ ''<loc>'' @ ''https://site.example'' @ ''</loc>''
      @ ''</url><url>'' @ ''<loc>'' @ ''https://site.example/a'' @ ''</loc>''
      @ ''</url><url>'' @ ''<loc>'' @ ''https://site.example/b'' @ ''</loc>''
      @ ''</url></urlset>'')
     = [''https://site.example'', ''https://site.example/a'', ''https://site.example/b'']"
    by (rule conjunct1)
  from w1 c1 have e1': "length (loadSitemap (Responded True (Some (''<urlset><url>'' @ ''<loc>''
      @ ''https://site.example'' @ ''</loc>''
      @ ''</url><url>'' @ ''<loc>'' @ ''https://site.example/a'' @ ''</loc>''
      @ ''</url><url>'' @ ''<loc>'' @ ''https://site.example/b'' @ ''</loc>''
      @ ''</url></urlset>''))) [''https://site.example'']) = 3"
    by (simp del: append.simps append_Cons append_Nil loadSitemap.simps)
  from w2 have m2: "matchAllLoc ([] @ ''<loc>'' @ ''https://site.example/a'' @ ''</loc>''
      @ [CHR 0x0A] @ ''<loc>'' @ ''https://site.example/b'' @ ''</loc>''
      @ [CHR 0x0A] @ ''<loc>'' @ ''https://site.example/c'' @ ''</loc>'' @ [])
     = [''https://site.example/a'', ''https://site.example/b'', ''https://site.example/c'']"
    by (rule conjunct1)
  from w2 d2 have e2': "length (loadSitemap (Responded True (Some ([] @ ''<loc>''
      @ ''https://site.example/a''
      @ ''</loc>'' @ [CHR 0x0A] @ ''<loc>'' @ ''https://site.example/b'' @ ''</loc>''
      @ [CHR 0x0A] @ ''<loc>'' @ ''https://site.example/c'' @ ''</loc>'' @ [])))
        [''https://site.example'']) = length [''https://site.example''] + 3
     \<and> loadSitemap (Responded False (Some ''<loc>https://site.example/a</loc>''))
        [''https://site.example'']
       = [''https://site.example'']"
    by blast
  from m1 e1' m2 e2' show ?thesis by blast
qed

text \<open>
  C9 (as stated) fails for a document whose entries are written over lines: the \<^verbatim>\<open>.\<close> of
  the pattern \<^verbatim>\<open>/<loc>(.*?)<\/loc>/g\<close> does not pass a line break, so none of the three
  entries is found and \<^verbatim>\<open>queued\<close> stays as it was.
\<close>

theorem loadSitemap_multiline_counterexample:
  "matchAllLoc
     (''<url>'' @ ''<loc>'' @ ([CHR 0x0A] @ ''https://site.example/a'' @ [CHR 0x0A]) @ ''</loc>''
      @ ''</url><url>'' @ ''<loc>'' @ ([CHR 0x0A] @ ''https://site.example/b'' @ [CHR 0x0A])
      @ ''</loc>''
      @ ''</url><url>'' @ ''<loc>'' @ ([CHR 0x0A] @ ''https://site.example/c'' @ [CHR 0x0A])
      @ ''</loc>'' @ ''</url>'') = []
   \<and> loadSitemap (Responded True (Some
     (''<url>'' @ ''<loc>'' @ ([CHR 0x0A] @ ''https://site.example/a'' @ [CHR 0x0A]) @ ''</loc>''
      @ ''</url><url>'' @ ''<loc>'' @ ([CHR 0x0A] @ ''https://site.example/b'' @ [CHR 0x0A])
      @ ''</loc>''
      @ ''</url><url>'' @ ''<loc>'' @ ([CHR 0x0A] @ ''https://site.example/c'' @ [CHR 0x0A])
      @ ''</loc>'' @ ''</url>''))) [''https://site.example'']
     = [''https://site.example'']"
  by code_simp

section \<open>Properties of the crawl\<close>

text \<open>For a plain origin the model gives every run its final state.\<close>

lemma resume_defined: "\<exists>s'. resume ROOT OUT i p out s = Some s'"
proof (cases p)
  case (Rendering url)
  show ?thesis
  proof (cases out)
    case (Content html stored)
    from rewriteHTML_defined [of ROOT html] obtain h where "rewriteHTML ROOT html = Some h" ..
    with Rendering Content show ?thesis by simp
  qed (simp_all add: Rendering)
qed (cases out; simp)+

lemma step_defined:
  assumes "plain_origin ROOT"
  shows "\<exists>s'. step ROOT OUT e s = Some s'"
proof (cases e)
  case (Worker i out)
  then show ?thesis using resume_defined [of ROOT OUT i "workers s ! i" out s] by simp
next
  case (Response url)
  then show ?thesis by simp
next
  case (Body cleaned b)
  show ?thesis
  proof (cases b)
    case BodyFailed
    with Body show ?thesis by (simp add: on_body_def Let_def)
  next
    case (Bytes data stored)
    from rewriteCSS_defined [OF assms, of data] obtain css where "rewriteCSS ROOT data = Some css" ..
    with Body Bytes show ?thesis by (simp add: on_body_def Let_def)
  qed
qed

lemma run_defined:
  assumes "plain_origin ROOT"
  shows "\<exists>s'. run ROOT OUT es s = Some s'"
proof (induction es arbitrary: s)
  case Nil
  then show ?case by simp
next
  case (Cons e es)
  from step_defined [OF assms, of OUT e s] obtain s1 where "step ROOT OUT e s = Some s1" ..
  with Cons.IH [of s1] show ?case by simp
qed

lemma run_append:
  "run ROOT OUT (es1 @ es2) s = (case run ROOT OUT es1 s of None \<Rightarrow> None | Some s1 \<Rightarrow> run ROOT OUT es2 s1)"
  by (induction es1 arbitrary: s) (auto split: option.splits)

lemma next_url_fresh: "next_url seen q = (Some url, rest) \<Longrightarrow> url \<notin> set seen"
  by (induction q) (auto split: if_splits)

lemma set_set_add: "set (set_add xs x) = insert x (set xs)"
  by (auto simp: set_add_def)

lemma crawl_inv_loop_head: "crawl_inv s \<Longrightarrow> crawl_inv (loop_head i s)"
proof -
  assume inv: "crawl_inv s"
  obtain r rest where n: "next_url (visited s) (queued s) = (r, rest)" by force
  show ?thesis
  proof (cases r)
    case None
    with n inv show ?thesis by (simp add: loop_head_def crawl_inv_def)
  next
    case (Some url)
    with n have "url \<notin> set (visited s)" by (auto dest: next_url_fresh)
    with n Some inv show ?thesis
      by (auto simp: loop_head_def crawl_inv_def set_set_add)
  qed
qed

lemma crawl_inv_requeue: "crawl_inv (requeue url s) = crawl_inv s"
  by (simp add: requeue_def crawl_inv_def)

lemma crawl_inv_resume:
  assumes "resume ROOT OUT i p out s = Some s'" and "crawl_inv s"
  shows "crawl_inv s'"
proof -
  have retry: "crawl_inv (loop_head i (requeue url s))" for url
    using assms(2) by (simp add: crawl_inv_loop_head crawl_inv_requeue)
  have upd: "crawl_inv (s\<lparr>workers := w\<rparr>)" "crawl_inv (s\<lparr>workers := w, pages := pg\<rparr>)"
    "crawl_inv (s\<lparr>queued := q, workers := w\<rparr>)" for w pg q
    using assms(2) by (simp_all add: crawl_inv_def)
  show ?thesis
  proof (cases p)
    case Starting
    with assms upd show ?thesis by (cases out) (auto simp: crawl_inv_loop_head)
  next
    case (Rendering url)
    with assms upd retry show ?thesis
      by (cases out) (auto split: option.splits if_splits)
  next
    case (Extracting url)
    with assms upd retry show ?thesis by (cases out) auto
  next
    case (Closing url)
    with assms upd retry show ?thesis by (cases out) (auto simp: crawl_inv_loop_head)
  next
    case Leaving
    with assms upd show ?thesis by (cases out) auto
  next
    case Finished
    with assms show ?thesis by (cases out) auto
  next
    case Rejected
    with assms show ?thesis by (cases out) auto
  qed
qed

lemma on_response_frame:
  "crawls (on_response ROOT url s) = crawls s"
  "visited (on_response ROOT url s) = visited s"
  "queued (on_response ROOT url s) = queued s"
  "assets (on_response ROOT url s) = assets s"
  "pages (on_response ROOT url s) = pages s"
  "workers (on_response ROOT url s) = workers s"
  by (simp_all add: on_response_def Let_def)

lemma store_asset_frame:
  "crawls (store_asset OUT p d st s) = crawls s"
  "visited (store_asset OUT p d st s) = visited s"
  "queued (store_asset OUT p d st s) = queued s"
  "saving (store_asset OUT p d st s) = saving s"
  "bodies (store_asset OUT p d st s) = bodies s"
  "pages (store_asset OUT p d st s) = pages s"
  "workers (store_asset OUT p d st s) = workers s"
  by (simp_all add: store_asset_def)

lemma on_body_frame:
  assumes "on_body ROOT OUT cleaned b s = Some s'"
  shows "crawls s' = crawls s" "visited s' = visited s" "queued s' = queued s"
    "saving s' = saving s" "pages s' = pages s" "workers s' = workers s"
  using assms
  by (auto simp: on_body_def Let_def store_asset_frame
      split: if_splits body.splits option.splits)

lemma crawl_inv_step:
  assumes "step ROOT OUT e s = Some s'" and "crawl_inv s"
  shows "crawl_inv s'"
proof (cases e)
  case (Worker i out)
  show ?thesis
  proof (cases "i < length (workers s)")
    case True
    with Worker assms(1) have "resume ROOT OUT i (workers s ! i) out s = Some s'" by simp
    then show ?thesis using assms(2) by (rule crawl_inv_resume)
  next
    case False
    with Worker assms show ?thesis by simp
  qed
next
  case (Response url)
  with assms(1) have "s' = on_response ROOT url s" by simp
  with assms(2) show ?thesis by (simp add: crawl_inv_def on_response_frame)
next
  case (Body cleaned b)
  with assms(1) have "on_body ROOT OUT cleaned b s = Some s'" by simp
  from on_body_frame(1,2) [OF this] assms(2) show ?thesis by (simp add: crawl_inv_def)
qed

lemma run_invariant:
  assumes "\<And>e s s'. step ROOT OUT e s = Some s' \<Longrightarrow> P s \<Longrightarrow> P s'"
  shows "run ROOT OUT es s = Some s' \<Longrightarrow> P s \<Longrightarrow> P s'"
proof (induction es arbitrary: s)
  case Nil
  then show ?case by simp
next
  case (Cons e es)
  from Cons.prems(1) obtain s1 where s1: "step ROOT OUT e s = Some s1" and r: "run ROOT OUT es s1 = Some s'"
    by (auto split: option.splits)
  from assms [OF s1 Cons.prems(2)] have "P s1" .
  from Cons.IH [OF r this] show ?case .
qed

lemma crawl_inv_start: "crawl_inv (start ROOT fetch)"
  by (simp add: start_def crawl_inv_def)

lemma count_list_distinct: "distinct xs \<Longrightarrow> count_list xs x \<le> 1"
  by (induction xs) (auto simp: count_list_0_iff)

lemma enqueue_links_seen:
  "url \<in> set seen \<Longrightarrow> url \<notin> set pending \<Longrightarrow> url \<notin> set (enqueue_links seen pending links)"
proof (induction links arbitrary: pending)
  case Nil
  then show ?case by simp
next
  case (Cons link links)
  show ?case
  proof (cases "link \<in> set seen")
    case True
    with Cons show ?thesis by simp
  next
    case False
    with Cons.prems(1) have "link \<noteq> url" by auto
    with Cons.prems(2) have "url \<notin> set (set_add pending link)" by (simp add: set_set_add)
    from Cons.IH [OF Cons.prems(1) this] False show ?thesis by simp
  qed
qed

text \<open>The three lists stay free of duplicates: they are sets.\<close>

lemma distinct_set_add: "distinct xs \<Longrightarrow> distinct (set_add xs x)"
  by (simp add: set_add_def)

lemma next_url_rest:
  "next_url seen q = (r, rest) \<Longrightarrow> distinct q \<Longrightarrow> distinct rest"
  by (induction q) (auto split: if_splits)

lemma distinct_enqueue_links:
  "distinct pending \<Longrightarrow> distinct (enqueue_links seen pending links)"
  by (induction links arbitrary: pending) (simp_all add: distinct_set_add)

lemma sets_inv_loop_head: "sets_inv s \<Longrightarrow> sets_inv (loop_head i s)"
proof -
  assume inv: "sets_inv s"
  obtain r rest where n: "next_url (visited s) (queued s) = (r, rest)" by force
  with inv have "distinct rest" by (auto simp: sets_inv_def dest: next_url_rest)
  with n inv show ?thesis
    by (cases r) (simp_all add: loop_head_def sets_inv_def distinct_set_add)
qed

lemma sets_inv_requeue: "sets_inv s \<Longrightarrow> sets_inv (requeue url s)"
  by (simp add: requeue_def sets_inv_def distinct_set_add)

lemma sets_inv_resume:
  assumes "resume ROOT OUT i p out s = Some s'" and "sets_inv s"
  shows "sets_inv s'"
proof -
  have retry: "sets_inv (loop_head i (requeue url s))" for url
    using assms(2) by (simp add: sets_inv_loop_head sets_inv_requeue)
  have upd: "sets_inv (s\<lparr>workers := w\<rparr>)" "sets_inv (s\<lparr>workers := w, pages := pg\<rparr>)"
    "sets_inv (s\<lparr>queued := enqueue_links (visited s) (queued s) links, workers := w\<rparr>)"
    for w pg links
    using assms(2) by (simp_all add: sets_inv_def distinct_enqueue_links)
  show ?thesis
  proof (cases p)
    case Starting
    with assms upd show ?thesis by (cases out) (auto simp: sets_inv_loop_head)
  next
    case (Rendering url)
    with assms upd retry show ?thesis
      by (cases out) (auto split: option.splits if_splits)
  next
    case (Extracting url)
    with assms upd retry show ?thesis by (cases out) auto
  next
    case (Closing url)
    with assms upd retry show ?thesis by (cases out) (auto simp: sets_inv_loop_head)
  next
    case Leaving
    with assms upd show ?thesis by (cases out) auto
  next
    case Finished
    with assms show ?thesis by (cases out) auto
  next
    case Rejected
    with assms show ?thesis by (cases out) auto
  qed
qed

lemma sets_inv_step:
  assumes "step ROOT OUT e s = Some s'" and "sets_inv s"
  shows "sets_inv s'"
proof (cases e)
  case (Worker i out)
  show ?thesis
  proof (cases "i < length (workers s)")
    case True
    with Worker assms(1) have "resume ROOT OUT i (workers s ! i) out s = Some s'" by simp
    then show ?thesis using assms(2) by (rule sets_inv_resume)
  next
    case False
    with Worker assms show ?thesis by simp
  qed
next
  case (Response url)
  with assms(1) have "s' = on_response ROOT url s" by simp
  with assms(2) show ?thesis
    by (simp add: sets_inv_def on_response_def Let_def distinct_set_add)
next
  case (Body cleaned b)
  with assms(1) have "on_body ROOT OUT cleaned b s = Some s'" by simp
  from on_body_frame(2,3,4) [OF this] assms(2) show ?thesis by (simp add: sets_inv_def)
qed

lemma sets_inv_start: "sets_inv (start ROOT fetch)"
proof -
  have "distinct (loadSitemap fetch [ROOT])"
    by (cases "(fetch, [ROOT])" rule: loadSitemap.cases) (auto simp: distinct_foldl_set_add)
  then show ?thesis by (simp add: start_def sets_inv_def)
qed

lemma sets_inv_run: "run ROOT OUT es (start ROOT fetch) = Some s \<Longrightarrow> sets_inv s"
  by (rule run_invariant [where P = sets_inv, OF sets_inv_step _ sets_inv_start])

text \<open>
  C2. In every run (every interleaving of the workers and the response handlers, every
  behaviour of the browser), each URL is logged as crawled at most once. A worker renders
  a URL only after it has logged it, once per entry of the log, so each URL is rendered
  at most once; the count includes what a retry would render. And link discovery never
  puts back a URL that has moved from \<^verbatim>\<open>queued\<close> to \<^verbatim>\<open>visited\<close>: when a worker adds the
  links of a page, a URL that is in \<^verbatim>\<open>visited\<close> and not in \<^verbatim>\<open>queued\<close> is not in \<^verbatim>\<open>queued\<close>
  afterwards.
\<close>

theorem fetch_at_most_once:
  assumes "run ROOT OUT es (start ROOT fetch) = Some s"
  shows "count_list (crawls s) url \<le> 1
       \<and> (\<forall>i u links s'. url \<in> set (visited s) \<and> url \<notin> set (queued s)
            \<and> resume ROOT OUT i (Extracting u) (Links links) s = Some s'
            \<longrightarrow> url \<notin> set (queued s'))"
proof -
  have "crawl_inv s"
    using crawl_inv_step assms crawl_inv_start by (rule run_invariant)
  then have "distinct (crawls s)" by (simp add: crawl_inv_def)
  then have "count_list (crawls s) url \<le> 1" by (rule count_list_distinct)
  moreover have "url \<notin> set (queued s')"
    if "url \<in> set (visited s)" and "url \<notin> set (queued s)"
      and "resume ROOT OUT i (Extracting u) (Links links) s = Some s'" for i u links s'
  proof -
    from that(3) have "queued s' = enqueue_links (visited s) (queued s) links" by auto
    with that(1,2) show ?thesis by (simp add: enqueue_links_seen)
  qed
  ultimately show ?thesis by blast
qed

theorem fetch_at_most_once_witness:
  "\<exists>s s'. run ''https://site.example'' ''/home/user/downloads/site.example''
        [Worker 0 Ready, Worker 1 Ready, Worker 0 (Content ''Home'' True),
         Worker 0 (Links [''https://site.example/about'']), Worker 0 Ready,
         Worker 0 (Content ''About'' True)]
        (start ''https://site.example'' RequestFailed) = Some s
     \<and> crawls s = [''https://site.example'', ''https://site.example/about'']
     \<and> count_list (crawls s) ''https://site.example'' \<le> 1
     \<and> ''https://site.example'' \<in> set (visited s)
     \<and> ''https://site.example'' \<notin> set (queued s)
     \<and> resume ''https://site.example'' ''/home/user/downloads/site.example'' 0 (Extracting ''https://site.example/about'')
          (Links [''https://site.example'']) s = Some s'
     \<and> ''https://site.example'' \<notin> set (queued s')"
proof -
  define s where "s = \<lparr>queued = [],
      visited = [''https://site.example'', ''https://site.example/about''], saving = [],
      workers = [Extracting ''https://site.example/about'', Leaving, Starting, Starting],
      bodies = [], crawls = [''https://site.example'', ''https://site.example/about''],
      pages = [(''/home/user/downloads/site.example/index.html'', ''Home''),
        (''/home/user/downloads/site.example/about'', ''About'')], assets = []\<rparr>"
  define s' where "s' = s\<lparr>workers := [Closing ''https://site.example/about'', Leaving, Starting, Starting]\<rparr>"
  have r: "run ''https://site.example'' ''/home/user/downloads/site.example''
        [Worker 0 Ready, Worker 1 Ready, Worker 0 (Content ''Home'' True),
         Worker 0 (Links [''https://site.example/about'']), Worker 0 Ready,
         Worker 0 (Content ''About'' True)]
        (start ''https://site.example'' RequestFailed) = Some s"
    unfolding s_def by code_simp
  have v: "''https://site.example'' \<in> set (visited s)" "''https://site.example'' \<notin> set (queued s)"
    "crawls s = [''https://site.example'', ''https://site.example/about'']"
    by (simp_all add: s_def)
  have l: "resume ''https://site.example'' ''/home/user/downloads/site.example'' 0 (Extracting ''https://site.example/about'')
          (Links [''https://site.example'']) s = Some s'"
    by (simp add: s_def s'_def)
  from fetch_at_most_once [OF r, of "''https://site.example''"] v l
  have "count_list (crawls s) ''https://site.example'' \<le> 1
      \<and> ''https://site.example'' \<notin> set (queued s')"
    by blast
  with r v l show ?thesis by blast
qed

text \<open>
  C1 (the code at a failing render). The only URL is the origin and its render throws.
  The worker logs the retry and adds the URL to \<^verbatim>\<open>queued\<close> again, but the URL is in
  \<^verbatim>\<open>visited\<close> since before the render: the head of the loop takes it and drops it, the set
  is empty and the worker leaves its loop. At the end of the run the URL has been
  rendered once and no page is written.
\<close>

theorem failed_url_not_retried:
  "run ''https://site.example'' ''/home/user/downloads/site.example'' [Worker 0 Ready] (start ''https://site.example'' RequestFailed)
     = Some \<lparr>queued = [], visited = [''https://site.example''], saving = [],
         workers = [Rendering ''https://site.example'', Starting, Starting, Starting],
         bodies = [], crawls = [''https://site.example''], pages = [], assets = []\<rparr>
   \<and> queued (requeue ''https://site.example''
        \<lparr>queued = [], visited = [''https://site.example''], saving = [],
         workers = [Rendering ''https://site.example'', Starting, Starting, Starting],
         bodies = [], crawls = [''https://site.example''], pages = [], assets = []\<rparr>)
     = [''https://site.example'']
   \<and> run ''https://site.example'' ''/home/user/downloads/site.example'' [Worker 0 Ready, Worker 0 Threw]
        (start ''https://site.example'' RequestFailed)
     = Some \<lparr>queued = [], visited = [''https://site.example''], saving = [],
         workers = [Leaving, Starting, Starting, Starting],
         bodies = [], crawls = [''https://site.example''], pages = [], assets = []\<rparr>
   \<and> run ''https://site.example'' ''/home/user/downloads/site.example''
        [Worker 0 Ready, Worker 0 Threw, Worker 1 Ready, Worker 2 Ready, Worker 3 Ready,
         Worker 0 Ready, Worker 1 Ready, Worker 2 Ready, Worker 3 Ready]
        (start ''https://site.example'' RequestFailed)
     = Some \<lparr>queued = [], visited = [''https://site.example''], saving = [],
         workers = [Finished, Finished, Finished, Finished],
         bodies = [], crawls = [''https://site.example''], pages = [], assets = []\<rparr>"
  by code_simp

subsection \<open>The sniffer\<close>

lemma loop_head_frame:
  "saving (loop_head i s) = saving s" "bodies (loop_head i s) = bodies s"
  "assets (loop_head i s) = assets s"
  by (simp_all add: loop_head_def split: prod.splits option.splits)

lemma requeue_frame:
  "saving (requeue url s) = saving s" "bodies (requeue url s) = bodies s"
  "assets (requeue url s) = assets s"
  by (simp_all add: requeue_def)

lemma resume_frame:
  assumes "resume ROOT OUT i p out s = Some s'"
  shows "saving s' = saving s \<and> bodies s' = bodies s \<and> assets s' = assets s"
proof (cases p)
  case Starting
  with assms show ?thesis by (cases out) (auto simp: loop_head_frame)
next
  case (Rendering url)
  with assms show ?thesis
    by (cases out) (auto simp: loop_head_frame requeue_frame split: option.splits if_splits)
next
  case (Extracting url)
  with assms show ?thesis by (cases out) (auto simp: loop_head_frame requeue_frame)
next
  case (Closing url)
  with assms show ?thesis by (cases out) (auto simp: loop_head_frame requeue_frame)
next
  case Leaving
  with assms show ?thesis by (cases out) auto
next
  case Finished
  with assms show ?thesis by (cases out) auto
next
  case Rejected
  with assms show ?thesis by (cases out) auto
qed

lemma worker_step_frame:
  assumes "step ROOT OUT (Worker i out) s = Some s'"
  shows "saving s' = saving s \<and> bodies s' = bodies s \<and> assets s' = assets s"
proof (cases "i < length (workers s)")
  case True
  with assms have "resume ROOT OUT i (workers s ! i) out s = Some s'" by simp
  then show ?thesis by (rule resume_frame)
next
  case False
  with assms show ?thesis by simp
qed

lemma on_response_claimed:
  "cleanURL ROOT url \<in> set (saving s) \<Longrightarrow> on_response ROOT url s = s"
  by (simp add: on_response_def)

lemma on_response_out_of_scope:
  "\<not> startsWith url ROOT \<Longrightarrow> on_response ROOT url s = s"
  by (simp add: on_response_def)

lemma on_response_claims:
  assumes "startsWith url ROOT" and "cleanURL ROOT url \<notin> set (saving s)"
  shows "saving (on_response ROOT url s) = saving s @ [cleanURL ROOT url]"
    and "bodies (on_response ROOT url s) = bodies s @ [cleanURL ROOT url]"
  using assms by (simp_all add: on_response_def set_add_def Let_def)

lemma sniff_inv_on_response: "sniff_inv s \<Longrightarrow> sniff_inv (on_response ROOT url s)"
proof -
  assume inv: "sniff_inv s"
  show ?thesis
  proof (cases "startsWith url ROOT \<and> cleanURL ROOT url \<notin> set (saving s)")
    case True
    then have sc: "startsWith url ROOT" and fr: "cleanURL ROOT url \<notin> set (saving s)" by simp_all
    from inv fr show ?thesis
      unfolding sniff_inv_def on_response_claims [OF sc fr] on_response_frame
      by auto
  next
    case False
    then have "on_response ROOT url s = s"
      by (auto simp: on_response_claimed on_response_out_of_scope)
    with inv show ?thesis by simp
  qed
qed

text \<open>What the rest of the handler does: the handler is gone, and at most its file is written.\<close>

lemma on_body_cases:
  assumes "on_body ROOT OUT p b s = Some s'"
  shows "s' = s \<and> p \<notin> set (bodies s)
       \<or> p \<in> set (bodies s) \<and> saving s' = saving s \<and> bodies s' = remove1 p (bodies s)
          \<and> (assets s' = assets s \<or> \<not> failed b \<and> (\<exists>d. assets s' = assets s @ [(p, path_join OUT p, d)]))"
  using assms
  by (auto simp: on_body_def Let_def store_asset_def
      split: if_splits body.splits option.splits)

lemma sniff_inv_on_body:
  assumes "on_body ROOT OUT p b s = Some s'" and "sniff_inv s"
  shows "sniff_inv s'"
proof -
  from on_body_cases [OF assms(1)]
  consider "s' = s"
    | "p \<in> set (bodies s)" "saving s' = saving s" "bodies s' = remove1 p (bodies s)"
      "assets s' = assets s"
    | d where "p \<in> set (bodies s)" "saving s' = saving s" "bodies s' = remove1 p (bodies s)"
      "assets s' = assets s @ [(p, path_join OUT p, d)]"
    by blast
  then show ?thesis
  proof cases
    case 1
    with assms(2) show ?thesis by simp
  next
    case 2
    with assms(2) show ?thesis
      by (auto simp: sniff_inv_def dest: notin_set_remove1)
  next
    case 3
    from assms(2) have "distinct (bodies s)" by (simp add: sniff_inv_def)
    then have "p \<notin> set (remove1 p (bodies s))" by simp
    with 3 assms(2) show ?thesis
      by (auto simp: sniff_inv_def dest: notin_set_remove1)
  qed
qed

lemma sniff_inv_step:
  assumes "step ROOT OUT e s = Some s'" and "sniff_inv s"
  shows "sniff_inv s'"
proof (cases e)
  case (Worker i out)
  with assms(1) have "saving s' = saving s \<and> bodies s' = bodies s \<and> assets s' = assets s"
    by (simp only: worker_step_frame)
  with assms(2) show ?thesis by (simp add: sniff_inv_def)
next
  case (Response url)
  with assms show ?thesis by (auto simp: sniff_inv_on_response)
next
  case (Body cleaned b)
  with assms(1) have "on_body ROOT OUT cleaned b s = Some s'" by simp
  then show ?thesis using assms(2) by (rule sniff_inv_on_body)
qed

lemma sniff_inv_start: "sniff_inv (start ROOT fetch)"
  by (simp add: start_def sniff_inv_def)

lemma sniff_inv_run: "run ROOT OUT es s = Some s' \<Longrightarrow> sniff_inv s \<Longrightarrow> sniff_inv s'"
  by (rule run_invariant [where P = sniff_inv, OF sniff_inv_step])

lemma distinct_filter_le_1:
  "distinct (map fst xs) \<Longrightarrow> length (filter (\<lambda>a. fst a = p) xs) \<le> 1"
proof (induction xs)
  case Nil
  then show ?case by simp
next
  case (Cons x xs)
  show ?case
  proof (cases "fst x = p")
    case True
    from Cons.prems True have "p \<notin> fst ` set xs" by auto
    then have "\<forall>a\<in>set xs. fst a \<noteq> p" by (metis imageI)
    then have "filter (\<lambda>a. fst a = p) xs = []" by (simp add: filter_empty_conv)
    with True show ?thesis by simp
  next
    case False
    with Cons show ?thesis by simp
  qed
qed

lemma settled_step:
  assumes "step ROOT OUT e s = Some s'" and "p \<in> set (saving s)" and "p \<notin> set (bodies s)"
  shows "p \<in> set (saving s') \<and> p \<notin> set (bodies s')
       \<and> filter (\<lambda>a. fst a = p) (assets s') = filter (\<lambda>a. fst a = p) (assets s)"
proof (cases e)
  case (Worker i out)
  with assms(1) have "saving s' = saving s \<and> bodies s' = bodies s \<and> assets s' = assets s"
    by (simp only: worker_step_frame)
  with assms(2,3) show ?thesis by simp
next
  case (Response url)
  with assms(1) have s': "s' = on_response ROOT url s" by simp
  show ?thesis
  proof (cases "startsWith url ROOT \<and> cleanURL ROOT url \<notin> set (saving s)")
    case True
    then have sc: "startsWith url ROOT" and fr: "cleanURL ROOT url \<notin> set (saving s)" by simp_all
    from fr assms(2) have "cleanURL ROOT url \<noteq> p" by auto
    with assms(2,3) show ?thesis
      unfolding s' on_response_claims [OF sc fr] on_response_frame by simp
  next
    case False
    then have "on_response ROOT url s = s"
      by (auto simp: on_response_claimed on_response_out_of_scope)
    with s' assms(2,3) show ?thesis by simp
  qed
next
  case (Body cleaned b)
  with assms(1) have "on_body ROOT OUT cleaned b s = Some s'" by simp
  from on_body_cases [OF this]
  consider "s' = s"
    | "cleaned \<in> set (bodies s)" "saving s' = saving s" "bodies s' = remove1 cleaned (bodies s)"
      "assets s' = assets s"
    | d where "cleaned \<in> set (bodies s)" "saving s' = saving s"
      "bodies s' = remove1 cleaned (bodies s)" "assets s' = assets s @ [(cleaned, path_join OUT cleaned, d)]"
    by blast
  then show ?thesis
  proof cases
    case 1
    with assms(2,3) show ?thesis by simp
  next
    case 2
    with assms(2,3) show ?thesis by (auto dest: notin_set_remove1)
  next
    case 3
    from 3(1) assms(3) have "cleaned \<noteq> p" by auto
    with 3 assms(2,3) show ?thesis by (auto dest: notin_set_remove1)
  qed
qed

lemma settled_run:
  "run ROOT OUT es s = Some s' \<Longrightarrow> p \<in> set (saving s) \<Longrightarrow> p \<notin> set (bodies s) \<Longrightarrow>
   p \<in> set (saving s') \<and> p \<notin> set (bodies s')
   \<and> filter (\<lambda>a. fst a = p) (assets s') = filter (\<lambda>a. fst a = p) (assets s)"
proof (induction es arbitrary: s)
  case Nil
  then show ?case by simp
next
  case (Cons e es)
  from Cons.prems(1) obtain s1 where s1: "step ROOT OUT e s = Some s1" and r: "run ROOT OUT es s1 = Some s'"
    by (auto split: option.splits)
  from settled_step [OF s1 Cons.prems(2,3)] Cons.IH [OF r, of ] show ?case by simp
qed

lemma waiting_step:
  assumes "step ROOT OUT e s = Some s'" and "\<not> is_body_of p e" and "p \<in> set (bodies s)"
  shows "p \<in> set (bodies s')"
proof (cases e)
  case (Worker i out)
  with assms(1) have "saving s' = saving s \<and> bodies s' = bodies s \<and> assets s' = assets s"
    by (simp only: worker_step_frame)
  with assms(3) show ?thesis by simp
next
  case (Response url)
  with assms(1) have s': "s' = on_response ROOT url s" by simp
  with assms(3) show ?thesis by (simp add: on_response_def Let_def)
next
  case (Body cleaned b)
  with assms(2) have ne: "cleaned \<noteq> p" by simp
  from Body assms(1) have "on_body ROOT OUT cleaned b s = Some s'" by simp
  from on_body_cases [OF this] have "bodies s' = bodies s \<or> bodies s' = remove1 cleaned (bodies s)"
    by auto
  with ne assms(3) show ?thesis by auto
qed

lemma waiting_run:
  "run ROOT OUT es s = Some s' \<Longrightarrow> list_all (\<lambda>e. \<not> is_body_of p e) es \<Longrightarrow>
   p \<in> set (bodies s) \<Longrightarrow> p \<in> set (bodies s')"
proof (induction es arbitrary: s)
  case Nil
  then show ?case by simp
next
  case (Cons e es)
  from Cons.prems(1) obtain s1 where s1: "step ROOT OUT e s = Some s1" and r: "run ROOT OUT es s1 = Some s'"
    by (auto split: option.splits)
  from Cons.prems(2) have e: "\<not> is_body_of p e" and es: "list_all (\<lambda>e. \<not> is_body_of p e) es"
    by simp_all
  from waiting_step [OF s1 e Cons.prems(3)] have "p \<in> set (bodies s1)" .
  from Cons.IH [OF r es this] show ?case .
qed

lemma on_body_failed:
  assumes "on_body ROOT OUT p b s = Some s'" and "failed b"
  shows "saving s' = saving s \<and> assets s' = assets s
       \<and> (bodies s' = bodies s \<or> bodies s' = remove1 p (bodies s))"
  using on_body_cases [OF assms(1)] assms(2) by auto

lemma files_inv_step:
  assumes "step ROOT OUT e s = Some s'" and "files_inv OUT s"
  shows "files_inv OUT s'"
proof (cases e)
  case (Worker i out)
  with assms(1) have "saving s' = saving s \<and> bodies s' = bodies s \<and> assets s' = assets s"
    by (simp only: worker_step_frame)
  with assms(2) show ?thesis by (simp add: files_inv_def)
next
  case (Response url)
  with assms show ?thesis by (auto simp: files_inv_def on_response_frame)
next
  case (Body cleaned b)
  with assms(1) have "on_body ROOT OUT cleaned b s = Some s'" by simp
  from on_body_cases [OF this] assms(2) show ?thesis
    by (auto simp: files_inv_def)
qed

lemma files_inv_from:
  "run ROOT OUT es s0 = Some s \<Longrightarrow> files_inv OUT s0 \<Longrightarrow> files_inv OUT s"
proof (induction es arbitrary: s0)
  case Nil
  then show ?case by simp
next
  case (Cons e es)
  from Cons.prems(1) obtain s1 where s1: "step ROOT OUT e s0 = Some s1"
    and r: "run ROOT OUT es s1 = Some s"
    by (auto split: option.splits)
  from s1 Cons.prems(2) have "files_inv OUT s1" by (rule files_inv_step)
  with r show ?case by (rule Cons.IH)
qed

lemma files_inv_run: "run ROOT OUT es (start ROOT fetch) = Some s \<Longrightarrow> files_inv OUT s"
  by (erule files_inv_from) (simp add: start_def files_inv_def)

lemma distinct_map_filter_le_1:
  "distinct (map g xs) \<Longrightarrow> length (filter (\<lambda>a. g a = f) xs) \<le> 1"
proof (induction xs)
  case Nil
  then show ?case by simp
next
  case (Cons x xs)
  show ?case
  proof (cases "g x = f")
    case True
    from Cons.prems True have "f \<notin> g ` set xs" by auto
    then have "\<forall>a\<in>set xs. g a \<noteq> f" by (metis imageI)
    then have "filter (\<lambda>a. g a = f) xs = []" by (simp add: filter_empty_conv)
    with True show ?thesis by simp
  next
    case False
    with Cons show ?thesis by simp
  qed
qed

text \<open>
  C3 (as amended). In every run of the sniffer of \<^verbatim>\<open>webrcv.js\<close> (\<open>setupSniffer\<close>, with the
  \<^verbatim>\<open>saving\<close> set), the sniffer writes for each normalized path, that is for each string
  that \<open>cleanURL\<close> returns, at most once; and it writes each file at most once when no two
  paths in \<^verbatim>\<open>saving\<close> are joined to the same file by \<^verbatim>\<open>path.join\<close>. A response whose path is
  in \<^verbatim>\<open>saving\<close> changes nothing (\<^verbatim>\<open>saving\<close> is a set of its own: \<^verbatim>\<open>visited\<close> is not read). When
  a response in scope arrives whose path is not yet in \<^verbatim>\<open>saving\<close>, and its body comes back
  and \<^verbatim>\<open>writeFile\<close> succeeds, then whatever happens in between, exactly one write is made
  for the path: the body of that first response (rewritten, for a stylesheet), at the
  file that \<^verbatim>\<open>path.join\<close> makes of the path.
\<close>

theorem sniffer_writes_at_most_once:
  assumes "run ROOT OUT es (start ROOT fetch) = Some s"
  shows "length (filter (\<lambda>a. fst a = p) (assets s)) \<le> 1
       \<and> (inj_on (path_join OUT) (set (saving s))
            \<longrightarrow> length (filter (\<lambda>a. fst (snd a) = f) (assets s)) \<le> 1)
       \<and> (\<forall>url. cleanURL ROOT url \<in> set (saving s) \<longrightarrow> on_response ROOT url s = s)
       \<and> (\<forall>url es1 data d s'. startsWith url ROOT \<and> cleanURL ROOT url \<notin> set (saving s)
            \<and> list_all (\<lambda>e. \<not> is_body_of (cleanURL ROOT url) e) es1
            \<and> (if endsWith (cleanURL ROOT url) ''.css'' then rewriteCSS ROOT data else Some data)
                = Some d
            \<and> run ROOT OUT (Response url # es1 @ [Body (cleanURL ROOT url) (Bytes data True)]) s
                = Some s'
            \<longrightarrow> filter (\<lambda>a. fst a = cleanURL ROOT url) (assets s')
                = [(cleanURL ROOT url, path_join OUT (cleanURL ROOT url), d)])"
proof -
  have inv: "sniff_inv s" using assms sniff_inv_start by (rule sniff_inv_run)
  then have keys: "distinct (map fst (assets s))" by (simp add: sniff_inv_def)
  then have "length (filter (\<lambda>a. fst a = p) (assets s)) \<le> 1"
    by (rule distinct_filter_le_1)
  moreover have "length (filter (\<lambda>a. fst (snd a) = f) (assets s)) \<le> 1"
    if inj: "inj_on (path_join OUT) (set (saving s))"
  proof -
    from assms have "files_inv OUT s" by (rule files_inv_run)
    then have m: "map (\<lambda>a. fst (snd a)) (assets s) = map (path_join OUT) (map fst (assets s))"
      by (simp add: files_inv_def list_all_iff)
    from inv have "set (map fst (assets s)) \<subseteq> set (saving s)" by (simp add: sniff_inv_def)
    with inj have "inj_on (path_join OUT) (set (map fst (assets s)))" by (rule inj_on_subset)
    with keys have d: "distinct (map (path_join OUT) (map fst (assets s)))"
      by (simp only: distinct_map simp_thms)
    have "distinct (map (\<lambda>a. fst (snd a)) (assets s))" unfolding m by (rule d)
    then show ?thesis by (rule distinct_map_filter_le_1)
  qed
  moreover have "filter (\<lambda>a. fst a = cleanURL ROOT url) (assets s')
      = [(cleanURL ROOT url, path_join OUT (cleanURL ROOT url), d)]"
    if sc: "startsWith url ROOT" and fr: "cleanURL ROOT url \<notin> set (saving s)"
      and nb: "list_all (\<lambda>e. \<not> is_body_of (cleanURL ROOT url) e) es1"
      and d: "(if endsWith (cleanURL ROOT url) ''.css'' then rewriteCSS ROOT data else Some data)
                = Some d"
      and r: "run ROOT OUT (Response url # es1 @ [Body (cleanURL ROOT url) (Bytes data True)]) s
                = Some s'"
    for url es1 data d s'
  proof -
    define q where "q = cleanURL ROOT url"
    define sr where "sr = on_response ROOT url s"
    have sr_bodies: "q \<in> set (bodies sr)"
      unfolding sr_def q_def on_response_claims [OF sc fr] by simp
    from r obtain s1 where r1: "run ROOT OUT es1 sr = Some s1"
      and b: "on_body ROOT OUT q (Bytes data True) s1 = Some s'"
      by (auto simp: run_append sr_def q_def split: option.splits)
    have "sniff_inv sr" unfolding sr_def using inv by (rule sniff_inv_on_response)
    with r1 have inv1: "sniff_inv s1" by (rule sniff_inv_run)
    have w: "q \<in> set (bodies s1)"
      using r1 nb sr_bodies unfolding q_def [symmetric] by (rule waiting_run)
    with inv1 have none: "q \<notin> fst ` set (assets s1)" by (auto simp: sniff_inv_def)
    then have "\<forall>a\<in>set (assets s1). fst a \<noteq> q" by (metis imageI)
    then have e: "filter (\<lambda>a. fst a = q) (assets s1) = []" by (simp add: filter_empty_conv)
    from b w d have "assets s' = assets s1 @ [(q, path_join OUT q, d)]"
      by (auto simp: on_body_def Let_def store_asset_def q_def split: if_splits)
    with e show ?thesis by (simp add: q_def)
  qed
  moreover have "on_response ROOT url s = s" if "cleanURL ROOT url \<in> set (saving s)" for url
    using that by (rule on_response_claimed)
  ultimately show ?thesis by blast
qed

theorem sniffer_writes_at_most_once_witness:
  "\<exists>s s'. run ''https://site.example'' ''/home/user/downloads/site.example''
        [Response ''https://site.example/a.css?v=1'', Response ''https://site.example/a.css?v=2'',
         Body ''a.css'' (Bytes ''p{}'' True), Body ''a.css'' (Bytes ''q{}'' True)]
        (start ''https://site.example'' RequestFailed) = Some s
     \<and> assets s = [(''a.css'', ''/home/user/downloads/site.example/a.css'', ''p{}'')]
     \<and> length (filter (\<lambda>a. fst a = ''a.css'') (assets s)) \<le> 1
     \<and> inj_on (path_join ''/home/user/downloads/site.example'') (set (saving s))
     \<and> length (filter (\<lambda>a. fst (snd a) = ''/home/user/downloads/site.example/a.css'')
          (assets s)) \<le> 1
     \<and> cleanURL ''https://site.example'' ''https://site.example/a.css?v=3'' \<in> set (saving s)
     \<and> on_response ''https://site.example'' ''https://site.example/a.css?v=3'' s = s
     \<and> run ''https://site.example'' ''/home/user/downloads/site.example''
          (Response ''https://site.example/b.js?v=1''
            # [Response ''https://site.example/b.js?v=2'']
            @ [Body (cleanURL ''https://site.example'' ''https://site.example/b.js?v=1'')
                 (Bytes ''f()'' True)]) s = Some s'
     \<and> filter (\<lambda>a. fst a = cleanURL ''https://site.example'' ''https://site.example/b.js?v=1'')
          (assets s')
       = [(cleanURL ''https://site.example'' ''https://site.example/b.js?v=1'',
           path_join ''/home/user/downloads/site.example''
             (cleanURL ''https://site.example'' ''https://site.example/b.js?v=1''),
           ''f()'')]"
proof -
  define s where "s = \<lparr>queued = [''https://site.example''], visited = [], saving = [''a.css''],
      workers = [Starting, Starting, Starting, Starting], bodies = [], crawls = [],
      pages = [], assets = [(''a.css'', ''/home/user/downloads/site.example/a.css'', ''p{}'')]\<rparr>"
  define s' where "s' = s\<lparr>saving := [''a.css'', ''b.js''],
      assets := [(''a.css'', ''/home/user/downloads/site.example/a.css'', ''p{}''),
                 (''b.js'', ''/home/user/downloads/site.example/b.js'', ''f()'')]\<rparr>"
  have r: "run ''https://site.example'' ''/home/user/downloads/site.example''
        [Response ''https://site.example/a.css?v=1'', Response ''https://site.example/a.css?v=2'',
         Body ''a.css'' (Bytes ''p{}'' True), Body ''a.css'' (Bytes ''q{}'' True)]
        (start ''https://site.example'' RequestFailed) = Some s"
    unfolding s_def by code_simp
  have a: "assets s = [(''a.css'', ''/home/user/downloads/site.example/a.css'', ''p{}'')]"
    by (simp add: s_def)
  have i: "inj_on (path_join ''/home/user/downloads/site.example'') (set (saving s))"
    by (simp add: s_def)
  have c: "cleanURL ''https://site.example'' ''https://site.example/a.css?v=3'' \<in> set (saving s)"
    unfolding s_def by code_simp
  have n: "startsWith ''https://site.example/b.js?v=1'' ''https://site.example''
      \<and> cleanURL ''https://site.example'' ''https://site.example/b.js?v=1'' \<notin> set (saving s)
      \<and> list_all (\<lambda>e. \<not> is_body_of
            (cleanURL ''https://site.example'' ''https://site.example/b.js?v=1'') e)
          [Response ''https://site.example/b.js?v=2'']
      \<and> (if endsWith (cleanURL ''https://site.example'' ''https://site.example/b.js?v=1'') ''.css''
           then rewriteCSS ''https://site.example'' ''f()'' else Some ''f()'') = Some ''f()''"
    unfolding s_def by code_simp
  have r': "run ''https://site.example'' ''/home/user/downloads/site.example''
          (Response ''https://site.example/b.js?v=1''
            # [Response ''https://site.example/b.js?v=2'']
            @ [Body (cleanURL ''https://site.example'' ''https://site.example/b.js?v=1'')
                 (Bytes ''f()'' True)]) s = Some s'"
    unfolding s_def s'_def by code_simp
  from sniffer_writes_at_most_once [OF r, of "''a.css''"
      "''/home/user/downloads/site.example/a.css''"] i c n r'
  have "length (filter (\<lambda>a. fst a = ''a.css'') (assets s)) \<le> 1
     \<and> length (filter (\<lambda>a. fst (snd a) = ''/home/user/downloads/site.example/a.css'')
          (assets s)) \<le> 1
     \<and> on_response ''https://site.example'' ''https://site.example/a.css?v=3'' s = s
     \<and> filter (\<lambda>a. fst a = cleanURL ''https://site.example'' ''https://site.example/b.js?v=1'')
          (assets s')
       = [(cleanURL ''https://site.example'' ''https://site.example/b.js?v=1'',
           path_join ''/home/user/downloads/site.example''
             (cleanURL ''https://site.example'' ''https://site.example/b.js?v=1''),
           ''f()'')]"
    by blast
  with r a i c r' show ?thesis by blast
qed

text \<open>
  C3 (as stated) fails in three ways. With \<open>setupSniffer\<close>, two URLs in scope have the path
  \<^verbatim>\<open>a.css\<close>; the body of the first does not come back, the second response is dropped
  because the path is in \<^verbatim>\<open>saving\<close>, and no file is written at the path. Again with
  \<open>setupSniffer\<close>, the URLs \<^verbatim>\<open>https://site.example//a\<close> and \<^verbatim>\<open>https://site.example/a\<close> have
  the paths \<^verbatim>\<open>/a\<close> and \<^verbatim>\<open>a\<close>, which are claimed apart and joined to one file: the file is
  written twice and holds the second body. With the older \<open>sniffAndSave\<close>, which has no
  \<^verbatim>\<open>saving\<close> set, the file of one path is written twice.
\<close>

theorem sniffer_exactly_one_counterexample:
  "startsWith ''https://site.example/a.css?v=1'' ''https://site.example''
   \<and> startsWith ''https://site.example/a.css?v=2'' ''https://site.example''
   \<and> cleanURL ''https://site.example'' ''https://site.example/a.css?v=1'' = ''a.css''
   \<and> cleanURL ''https://site.example'' ''https://site.example/a.css?v=2'' = ''a.css''
   \<and> run ''https://site.example'' ''/home/user/downloads/site.example''
        [Response ''https://site.example/a.css?v=1'', Body ''a.css'' BodyFailed,
         Response ''https://site.example/a.css?v=2'', Body ''a.css'' (Bytes ''q{}'' True)]
        (start ''https://site.example'' RequestFailed)
     = Some \<lparr>queued = [''https://site.example''], visited = [], saving = [''a.css''],
         workers = [Starting, Starting, Starting, Starting], bodies = [], crawls = [],
         pages = [], assets = []\<rparr>
   \<and> startsWith ''https://site.example//a'' ''https://site.example''
   \<and> startsWith ''https://site.example/a'' ''https://site.example''
   \<and> run ''https://site.example'' ''/home/user/downloads/site.example''
        [Response ''https://site.example//a'', Body ''/a'' (Bytes ''x'' True),
         Response ''https://site.example/a'', Body ''a'' (Bytes ''y'' True)]
        (start ''https://site.example'' RequestFailed)
     = Some \<lparr>queued = [''https://site.example''], visited = [], saving = [''/a'', ''a''],
         workers = [Starting, Starting, Starting, Starting], bodies = [], crawls = [],
         pages = [],
         assets = [(''/a'', ''/home/user/downloads/site.example/a'', ''x''),
                   (''a'', ''/home/user/downloads/site.example/a'', ''y'')]\<rparr>
   \<and> assets (sniffAndSave_body ''a.css'' (Bytes ''q{}'' True)
        (sniffAndSave_body ''a.css'' (Bytes ''p{}'' True)
          (sniffAndSave_response ''https://thegentlemensedit.com/a.css?v=2''
            (sniffAndSave_response ''https://thegentlemensedit.com/a.css?v=1''
              (start ROOT_v8 RequestFailed)))))
     = [(''a.css'', ''/Users/BGoodwin/Documents/Websites/thegentlemensedit/a.css'', ''p{}''),
        (''a.css'', ''/Users/BGoodwin/Documents/Websites/thegentlemensedit/a.css'', ''q{}'')]"
  by code_simp

text \<open>
  C10. In a state \<open>s\<close> that a run reaches, let a response in scope arrive whose path is
  not in \<^verbatim>\<open>saving\<close>. The handler puts the path in \<^verbatim>\<open>saving\<close> before it waits for the body,
  and nothing is written at that moment. If the body then fails to come back, or
  \<^verbatim>\<open>writeFile\<close> throws, then whatever happens before (\<open>es1\<close>) and afterwards (\<open>es2\<close>), the
  path is still in \<^verbatim>\<open>saving\<close> and the sniffer has written no file at it: no later
  response with the same path is stored.
\<close>

theorem claim_survives_failure:
  assumes "run ROOT OUT es0 (start ROOT fetch) = Some s"
    and "startsWith url ROOT"
    and "cleanURL ROOT url \<notin> set (saving s)"
    and "run ROOT OUT (Response url # es1) s = Some s1"
    and "list_all (\<lambda>e. \<not> is_body_of (cleanURL ROOT url) e) es1"
    and "failed b"
    and "run ROOT OUT (Body (cleanURL ROOT url) b # es2) s1 = Some s2"
  shows "cleanURL ROOT url \<in> set (saving (on_response ROOT url s))
       \<and> cleanURL ROOT url \<in> set (bodies (on_response ROOT url s))
       \<and> assets (on_response ROOT url s) = assets s
       \<and> cleanURL ROOT url \<in> set (saving s2)
       \<and> cleanURL ROOT url \<notin> fst ` set (assets s2)"
proof -
  define p where "p = cleanURL ROOT url"
  define sr where "sr = on_response ROOT url s"
  have inv: "sniff_inv s" using assms(1) sniff_inv_start by (rule sniff_inv_run)
  have sr_saving: "p \<in> set (saving sr)" and sr_bodies: "p \<in> set (bodies sr)"
    unfolding sr_def p_def on_response_claims [OF assms(2,3)] by simp_all
  have sr_assets: "assets sr = assets s" by (simp add: sr_def on_response_frame)
  have run1: "run ROOT OUT es1 sr = Some s1" using assms(4) by (simp add: sr_def)
  have inv_sr: "sniff_inv sr" unfolding sr_def using inv by (rule sniff_inv_on_response)
  have inv1: "sniff_inv s1" using run1 inv_sr by (rule sniff_inv_run)
  have wait1: "p \<in> set (bodies s1)"
    using run1 assms(5) sr_bodies unfolding p_def [symmetric] by (rule waiting_run)
  with inv1 have none1: "p \<notin> fst ` set (assets s1)" and claimed1: "p \<in> set (saving s1)"
    and d1: "distinct (bodies s1)"
    by (auto simp: sniff_inv_def)
  from assms(7) obtain s1' where b: "on_body ROOT OUT p b s1 = Some s1'"
    and run2: "run ROOT OUT es2 s1' = Some s2"
    by (auto simp: p_def split: option.splits)
  from on_body_cases [OF b] wait1 have gone: "bodies s1' = remove1 p (bodies s1)" by auto
  from on_body_failed [OF b assms(6)] have same: "saving s1' = saving s1" "assets s1' = assets s1"
    by simp_all
  from gone d1 have "p \<notin> set (bodies s1')" by simp
  from settled_run [OF run2 _ this] claimed1 same(1)
  have fin: "p \<in> set (saving s2)"
    "filter (\<lambda>a. fst a = p) (assets s2) = filter (\<lambda>a. fst a = p) (assets s1')"
    by simp_all
  from none1 same(2) have "filter (\<lambda>a. fst a = p) (assets s1') = []"
    by (auto simp: filter_empty_conv)
  with fin(2) have "p \<notin> fst ` set (assets s2)"
    by (auto simp: filter_empty_conv)
  with fin(1) sr_saving sr_bodies sr_assets show ?thesis by (simp add: p_def sr_def)
qed

theorem claim_survives_failure_witness:
  "\<exists>s1 s2. run ''https://site.example'' ''/home/user/downloads/site.example''
        [Response ''https://site.example/app.js?v=1'', Worker 0 Ready,
         Response ''https://site.example/app.js?v=2'']
        (start ''https://site.example'' RequestFailed) = Some s1
     \<and> run ''https://site.example'' ''/home/user/downloads/site.example''
        [Body ''app.js'' (Bytes ''x'' False), Response ''https://site.example/app.js?v=3'',
         Body ''app.js'' (Bytes ''y'' True)] s1 = Some s2
     \<and> cleanURL ''https://site.example'' ''https://site.example/app.js?v=1'' = ''app.js''
     \<and> ''app.js'' \<in> set (saving (on_response ''https://site.example''
          ''https://site.example/app.js?v=1'' (start ''https://site.example'' RequestFailed)))
     \<and> assets (on_response ''https://site.example''
          ''https://site.example/app.js?v=1'' (start ''https://site.example'' RequestFailed)) = []
     \<and> ''app.js'' \<in> set (saving s2)
     \<and> ''app.js'' \<notin> fst ` set (assets s2)"
proof -
  define s1 where "s1 = \<lparr>queued = [], visited = [''https://site.example''], saving = [''app.js''],
      workers = [Rendering ''https://site.example'', Starting, Starting, Starting],
      bodies = [''app.js''], crawls = [''https://site.example''], pages = [], assets = []\<rparr>"
  define s2 where "s2 = s1\<lparr>bodies := []\<rparr>"
  have r0: "run ''https://site.example'' ''/home/user/downloads/site.example'' [] (start ''https://site.example'' RequestFailed)
      = Some (start ''https://site.example'' RequestFailed)"
    by simp
  have sc: "startsWith ''https://site.example/app.js?v=1'' ''https://site.example''"
    by code_simp
  have p: "cleanURL ''https://site.example'' ''https://site.example/app.js?v=1'' = ''app.js''"
    by code_simp
  have fr: "cleanURL ''https://site.example'' ''https://site.example/app.js?v=1''
      \<notin> set (saving (start ''https://site.example'' RequestFailed))"
    by (simp add: start_def)
  have r1: "run ''https://site.example'' ''/home/user/downloads/site.example''
        (Response ''https://site.example/app.js?v=1''
          # [Worker 0 Ready, Response ''https://site.example/app.js?v=2''])
        (start ''https://site.example'' RequestFailed) = Some s1"
    unfolding s1_def by code_simp
  have nb: "list_all (\<lambda>e. \<not> is_body_of
        (cleanURL ''https://site.example'' ''https://site.example/app.js?v=1'') e)
      [Worker 0 Ready, Response ''https://site.example/app.js?v=2'']"
    by simp
  have f: "failed (Bytes ''x'' False)" by simp
  have r2: "run ''https://site.example'' ''/home/user/downloads/site.example''
        (Body (cleanURL ''https://site.example'' ''https://site.example/app.js?v=1'')
            (Bytes ''x'' False)
          # [Response ''https://site.example/app.js?v=3'', Body ''app.js'' (Bytes ''y'' True)])
        s1 = Some s2"
    unfolding s1_def s2_def by code_simp
  from claim_survives_failure [OF r0 sc fr r1 nb f r2]
  have "''app.js'' \<in> set (saving (on_response ''https://site.example''
          ''https://site.example/app.js?v=1'' (start ''https://site.example'' RequestFailed)))
     \<and> assets (on_response ''https://site.example''
          ''https://site.example/app.js?v=1'' (start ''https://site.example'' RequestFailed))
        = assets (start ''https://site.example'' RequestFailed)
     \<and> ''app.js'' \<in> set (saving s2)
     \<and> ''app.js'' \<notin> fst ` set (assets s2)"
    unfolding p by blast
  moreover have "assets (start ''https://site.example'' RequestFailed) = []"
    by (simp add: start_def)
  ultimately show ?thesis using r1 r2 p by auto
qed

end
